theory Spec2Isabelle
  imports Main "HOL-Library.Sublist"
begin

section \<open>The conditional-compilation preprocessor of HDL\_Syntax\<close>

text \<open>
  A shallow embedding of \<^verbatim>\<open>HDL_Preprocessor.preproc\<close> (src/HDL\_Preprocessor.py, lines
  95--264). The buffer is a \<^typ>\<open>string\<close>; one \<^typ>\<open>char\<close> stands for one code point of
  the Python \<^verbatim>\<open>str\<close>, so the model covers buffers whose code points are below 256 and
  offsets count code points as Python's do.
\<close>

subsection \<open>Characters and character classes of the regular expressions\<close>

abbreviation backtick :: char where "backtick \<equiv> CHR 0x60"
abbreviation dquote :: char where "dquote \<equiv> CHR 0x22"
abbreviation backslash :: char where "backslash \<equiv> CHR 0x5C"
abbreviation newline :: char where "newline \<equiv> CHR 0x0A"

text \<open>The class \<^verbatim>\<open>[a-zA-Z_]\<close>.\<close>

definition ident_start :: "char \<Rightarrow> bool" where
  "ident_start x = (x \<in> set ''abcdefghijklmnopqrstuvwxyzABCDEFGHIJKLMNOPQRSTUVWXYZ_'')"

text \<open>The class \<^verbatim>\<open>[a-zA-Z0-9_$]\<close>.\<close>

definition ident_char :: "char \<Rightarrow> bool" where
  "ident_char x =
     (x \<in> set ''abcdefghijklmnopqrstuvwxyzABCDEFGHIJKLMNOPQRSTUVWXYZ0123456789_$'')"

text \<open>
  The class \<^verbatim>\<open>\s\<close> of a \<^verbatim>\<open>str\<close> pattern: the characters for which
  \<^verbatim>\<open>str.isspace\<close> holds; below 256 these are 0x09--0x0D, 0x1C--0x20, 0x85 and 0xA0.
\<close>

definition space_char :: "char \<Rightarrow> bool" where
  "space_char x =
     (x \<in> set [CHR 0x09, CHR 0x0A, CHR 0x0B, CHR 0x0C, CHR 0x0D, CHR 0x1C, CHR 0x1D,
               CHR 0x1E, CHR 0x1F, CHR 0x20, CHR 0x85, CHR 0xA0])"

subsection \<open>The regular expressions\<close>

text \<open>
  Every pattern of the source is a function on the buffer and an offset.
  \<^verbatim>\<open>pattern.search(content, pos)\<close> walks the suffix \<open>drop pos content\<close> and
  returns offsets into the whole buffer; \<^verbatim>\<open>pattern.match(content, pos)\<close> looks only
  at that suffix's beginning.
\<close>

datatype marker = Backtick | Quote | LineComment | BlockComment

text \<open>
  Line 114, \<^verbatim>\<open>(`|"|\/\/|\/\*)\<close>. At one offset the four alternatives are tried
  in their order; the result is the length of the match and which alternative it is.
\<close>

definition marker_at :: "string \<Rightarrow> (nat \<times> marker) option" where
  "marker_at s =
     (if take 1 s = [backtick] then Some (1, Backtick)
      else if take 1 s = [dquote] then Some (1, Quote)
      else if take 2 s = ''//'' then Some (2, LineComment)
      else if take 2 s = ''/*'' then Some (2, BlockComment)
      else None)"

text \<open>
  \<^verbatim>\<open>pattern.search\<close> returns the leftmost offset where the pattern matches, as
  (\<^verbatim>\<open>match.start(1)\<close>, \<^verbatim>\<open>match.end(1)\<close>, alternative).
\<close>

fun find_marker :: "string \<Rightarrow> nat \<Rightarrow> (nat \<times> nat \<times> marker) option" where
  "find_marker [] i = None"
| "find_marker (x # xs) i =
     (case marker_at (x # xs) of
        Some (n, m) \<Rightarrow> Some (i, i + n, m)
      | None \<Rightarrow> find_marker xs (i + 1))"

definition search_marker :: "string \<Rightarrow> nat \<Rightarrow> (nat \<times> nat \<times> marker) option" where
  "search_marker content p = find_marker (drop p content) p"

text \<open>
  Lines 122 and 131, \<^verbatim>\<open>(\n)\<close> and \<^verbatim>\<open>(\*\/)\<close>: the first occurrence of a
  literal; the result is \<^verbatim>\<open>match.end(1)\<close>.
\<close>

fun find_literal :: "string \<Rightarrow> string \<Rightarrow> nat \<Rightarrow> nat option" where
  "find_literal k [] i = None"
| "find_literal k (x # xs) i =
     (if take (length k) (x # xs) = k then Some (i + length k)
      else find_literal k xs (i + 1))"

definition search_newline :: "string \<Rightarrow> nat \<Rightarrow> nat option" where
  "search_newline content p = find_literal [newline] (drop p content) p"

definition search_comment_end :: "string \<Rightarrow> nat \<Rightarrow> nat option" where
  "search_comment_end content p = find_literal ''*/'' (drop p content) p"

text \<open>
  Line 140, \<^verbatim>\<open>(?<!\\)(")\<close>: the first double quote whose preceding character is
  not a backslash. The look-behind reads the character before the offset in the whole
  buffer, also when that character lies before the start of the search; at offset 0 there
  is none and the look-behind succeeds.
\<close>

fun find_quote :: "char option \<Rightarrow> string \<Rightarrow> nat \<Rightarrow> nat option" where
  "find_quote prev [] i = None"
| "find_quote prev (x # xs) i =
     (if x = dquote \<and> prev \<noteq> Some backslash then Some (i + 1)
      else find_quote (Some x) xs (i + 1))"

definition search_quote :: "string \<Rightarrow> nat \<Rightarrow> nat option" where
  "search_quote content p =
     find_quote (if 0 < p \<and> p \<le> length content then Some (content ! (p - 1)) else None)
       (drop p content) p"

text \<open>A literal keyword at the beginning of a text; the result is the text after it.\<close>

definition keyword :: "string \<Rightarrow> string \<Rightarrow> string option" where
  "keyword k s = (if take (length k) s = k then Some (drop (length k) s) else None)"

text \<open>\<^verbatim>\<open>[a-zA-Z_][a-zA-Z0-9_$]*\<close>, greedy, at the beginning of a text.\<close>

definition ident_token :: "string \<Rightarrow> string option" where
  "ident_token s =
     (case s of [] \<Rightarrow> None
      | x # xs \<Rightarrow> if ident_start x then Some (x # takeWhile ident_char xs) else None)"

text \<open>
  \<^verbatim>\<open>(K)\s+([a-zA-Z_][a-zA-Z0-9_$]*)\<close> matched at offset \<open>ms\<close>: the result is
  \<^verbatim>\<open>(match.group(2), match.end(2))\<close>. The greedy \<^verbatim>\<open>\s+\<close> takes every
  white-space character; giving one back never helps, since an identifier starts with
  none.
\<close>

definition match_spaces_ident :: "string \<Rightarrow> string \<Rightarrow> nat \<Rightarrow> (string \<times> nat) option" where
  "match_spaces_ident k content ms =
     (case keyword k (drop ms content) of None \<Rightarrow> None
      | Some r \<Rightarrow>
          (let ws = takeWhile space_char r in
           if ws = [] then None
           else case ident_token (dropWhile space_char r) of None \<Rightarrow> None
                | Some name \<Rightarrow> Some (name, ms + length k + length ws + length name)))"

text \<open>
  \<^verbatim>\<open>(K)[^a-zA-Z0-9_$]\<close> matched at offset \<open>ms\<close>: one more character must follow
  the keyword, and it is not part of the match's group; the result is
  \<^verbatim>\<open>match.end(1)\<close>.
\<close>

definition match_word :: "string \<Rightarrow> string \<Rightarrow> nat \<Rightarrow> nat option" where
  "match_word k content ms =
     (case keyword k (drop ms content) of None \<Rightarrow> None
      | Some r \<Rightarrow>
          (case r of [] \<Rightarrow> None
           | x # _ \<Rightarrow> if ident_char x then None else Some (ms + length k)))"

text \<open>
  Line 152, \<^verbatim>\<open>(`include) "([^"]+)"\<close>: one space, a quote, at least one character
  other than a quote (a newline too), a quote. The result is
  \<^verbatim>\<open>(match.group(2), match.end(2))\<close>; \<^verbatim>\<open>match.end(2)\<close> is the offset of the closing
  quote.
\<close>

definition match_include :: "string \<Rightarrow> nat \<Rightarrow> (string \<times> nat) option" where
  "match_include content ms =
     (case keyword (backtick # ''include '' @ [dquote]) (drop ms content) of None \<Rightarrow> None
      | Some r \<Rightarrow>
          (let path = takeWhile (\<lambda>x. x \<noteq> dquote) r in
           if path = [] \<or> length path = length r then None
           else Some (path, ms + 10 + length path)))"

text \<open>Line 183, \<^verbatim>\<open>(`define) ([a-zA-Z_][a-zA-Z0-9_$]*)\<close>: exactly one space.\<close>

definition match_define :: "string \<Rightarrow> nat \<Rightarrow> (string \<times> nat) option" where
  "match_define content ms =
     (case keyword (backtick # ''define '') (drop ms content) of None \<Rightarrow> None
      | Some r \<Rightarrow>
          (case ident_token r of None \<Rightarrow> None
           | Some name \<Rightarrow> Some (name, ms + 8 + length name)))"

text \<open>Lines 191, 206 and 247.\<close>

definition match_undef :: "string \<Rightarrow> nat \<Rightarrow> (string \<times> nat) option" where
  "match_undef = match_spaces_ident (backtick # ''undef'')"

definition match_ifdef :: "string \<Rightarrow> nat \<Rightarrow> (string \<times> nat) option" where
  "match_ifdef = match_spaces_ident (backtick # ''ifdef'')"

definition match_ifndef :: "string \<Rightarrow> nat \<Rightarrow> (string \<times> nat) option" where
  "match_ifndef = match_spaces_ident (backtick # ''ifndef'')"

text \<open>Lines 199, 219 and 236.\<close>

definition match_resetall :: "string \<Rightarrow> nat \<Rightarrow> nat option" where
  "match_resetall = match_word (backtick # ''resetall'')"

definition match_else :: "string \<Rightarrow> nat \<Rightarrow> nat option" where
  "match_else = match_word (backtick # ''else'')"

definition match_endif :: "string \<Rightarrow> nat \<Rightarrow> nat option" where
  "match_endif = match_word (backtick # ''endif'')"

subsection \<open>State\<close>

text \<open>
  One entry of \<^verbatim>\<open>self.conditionals\<close>: the dictionary with the keys \<^verbatim>\<open>'equal'\<close>
  and \<^verbatim>\<open>'exclude'\<close> (lines 209--212).
\<close>

record conditional =
  cond_equal :: bool
  cond_exclude :: bool

text \<open>
  The lines that \<^verbatim>\<open>preproc\<close> prints (lines 128, 137, 146, 165 and 178). What
  \<^verbatim>\<open>settings.incdirs()\<close> prints about the settings is not part of the model.
\<close>

datatype message =
    Comment_not_ended
  | Multiline_comment_not_ended
  | String_not_ended
  | Cant_open string

text \<open>
  The attributes of the \<^verbatim>\<open>HDL_Preprocessor\<close> object that \<^verbatim>\<open>preproc\<close> reads and
  writes, and what it has printed so far. The lists grow at the end, as
  \<^verbatim>\<open>append\<close> does; \<^verbatim>\<open>xs[-1]\<close> is \<^term>\<open>last\<close>.
\<close>

record self =
  "defines" :: "string list"
  conditionals :: "conditional list"
  head :: "string list"
  printed :: "message list"

text \<open>
  The local variables of one call of \<^verbatim>\<open>preproc\<close> that live across iterations of its
  loop (lines 106--111); a region is the pair given to \<^verbatim>\<open>sublime.Region\<close>.
\<close>

record locals =
  pos :: nat
  exclude :: bool
  exclude_pos_start :: nat
  regions :: "(nat \<times> nat) list"

definition initial_locals :: locals where
  "initial_locals = \<lparr>pos = 0, exclude = False, exclude_pos_start = 0, regions = []\<rparr>"

text \<open>
  The exceptions that leave \<^verbatim>\<open>preproc\<close>: \<^verbatim>\<open>xs[-1]\<close> on an empty list, and a
  file whose bytes \<^verbatim>\<open>file.read()\<close> cannot decode (a \<^verbatim>\<open>ValueError\<close>, which
  \<^verbatim>\<open>except OSError\<close> does not catch).
\<close>

datatype exn = IndexError | UnicodeDecodeError

subsection \<open>The file system and the settings\<close>

text \<open>
  What \<^verbatim>\<open>open(file_name, 'r')\<close> followed by \<^verbatim>\<open>file.read()\<close> does for a path:
  \<^verbatim>\<open>open\<close> raises \<^verbatim>\<open>OSError\<close>, \<^verbatim>\<open>read\<close> raises \<^verbatim>\<open>OSError\<close>,
  \<^verbatim>\<open>read\<close> raises \<^verbatim>\<open>UnicodeDecodeError\<close>, or the text is read.
\<close>

datatype file_result = Open_OSError | Read_OSError | Read_decode_error | Text string

text \<open>
  The library functions and the setting that \<^verbatim>\<open>preproc\<close> uses are parameters:
  \<^verbatim>\<open>settings.incdirs()\<close>, \<^verbatim>\<open>os.path.join\<close>, \<^verbatim>\<open>os.path.normpath\<close>,
  \<^verbatim>\<open>os.path.split(p)[0]\<close>, \<^verbatim>\<open>os.path.isfile\<close> and the files. They do not change
  during a run.
\<close>

record env =
  incdirs :: "string list"
  path_join :: "string \<Rightarrow> string \<Rightarrow> string"
  normpath :: "string \<Rightarrow> string"
  split_head :: "string \<Rightarrow> string"
  isfile :: "string \<Rightarrow> bool"
  open_read :: "string \<Rightarrow> file_result"

subsection \<open>The directives\<close>

text \<open>
  What a call of \<^verbatim>\<open>preproc\<close> gives: \<open>None\<close> when it does not return, an exception,
  or the regions with the object's new attributes.
\<close>

type_synonym outcome = "(exn + (nat \<times> nat) list \<times> self) option"

text \<open>
  Lines 158--165 and 171--178, the same block twice: open the file, push its directory,
  read it, scan it with a recursive call \<open>rec\<close> whose regions are dropped, pop the
  directory. An \<^verbatim>\<open>OSError\<close> from \<^verbatim>\<open>open\<close> or \<^verbatim>\<open>read\<close> is caught and
  reported; when \<^verbatim>\<open>read\<close> raises it, the directory is already pushed and line 163 or 176
  is skipped.
\<close>

definition read_and_scan ::
  "env \<Rightarrow> (string \<Rightarrow> self \<Rightarrow> outcome) \<Rightarrow> string \<Rightarrow> self \<Rightarrow> (exn + self) option" where
  "read_and_scan E rec file_name s =
     (case open_read E file_name of
        Open_OSError \<Rightarrow> Some (Inr (s\<lparr>printed := printed s @ [Cant_open file_name]\<rparr>))
      | Read_OSError \<Rightarrow>
          Some (Inr (s\<lparr>head := head s @ [split_head E file_name],
                       printed := printed s @ [Cant_open file_name]\<rparr>))
      | Read_decode_error \<Rightarrow> Some (Inl UnicodeDecodeError)
      | Text include_content \<Rightarrow>
          (case rec include_content (s\<lparr>head := head s @ [split_head E file_name]\<rparr>) of
             None \<Rightarrow> None
           | Some (Inl e) \<Rightarrow> Some (Inl e)
           | Some (Inr (rs, s')) \<Rightarrow>
               if head s' = [] then Some (Inl IndexError)
               else Some (Inr (s'\<lparr>head := butlast (head s')\<rparr>))))"

text \<open>Lines 167--179: the first search directory where the file exists, and no other.\<close>

fun incdirs_loop ::
  "env \<Rightarrow> (string \<Rightarrow> self \<Rightarrow> outcome) \<Rightarrow> string \<Rightarrow> string list \<Rightarrow> self \<Rightarrow> (exn + self) option"
  where
  "incdirs_loop E rec name [] s = Some (Inr s)"
| "incdirs_loop E rec name (incdir # rest) s =
     (let file_name = normpath E (path_join E incdir name) in
      if isfile E file_name then read_and_scan E rec file_name s
      else incdirs_loop E rec name rest s)"

text \<open>Lines 155--179.\<close>

definition include_file ::
  "env \<Rightarrow> (string \<Rightarrow> self \<Rightarrow> outcome) \<Rightarrow> string \<Rightarrow> self \<Rightarrow> (exn + self) option" where
  "include_file E rec name s =
     (if head s = [] then Some (Inl IndexError)
      else
        let file_name = normpath E (path_join E (last (head s)) name) in
        if isfile E file_name then read_and_scan E rec file_name s
        else incdirs_loop E rec name (incdirs E) s)"

text \<open>Lines 186--188: \<^verbatim>\<open>pos\<close> is assigned only when the name is new.\<close>

definition on_define :: "string \<Rightarrow> nat \<Rightarrow> self \<Rightarrow> locals \<Rightarrow> self \<times> locals" where
  "on_define name e2 s l =
     (if name \<notin> set (defines s) then (s\<lparr>defines := defines s @ [name]\<rparr>, l\<lparr>pos := e2\<rparr>)
      else (s, l))"

text \<open>Lines 194--196: \<^verbatim>\<open>pos\<close> is assigned only when the name was defined.\<close>

definition on_undef :: "string \<Rightarrow> nat \<Rightarrow> self \<Rightarrow> locals \<Rightarrow> self \<times> locals" where
  "on_undef name e2 s l =
     (if name \<in> set (defines s) then (s\<lparr>defines := remove1 name (defines s)\<rparr>, l\<lparr>pos := e2\<rparr>)
      else (s, l))"

text \<open>Lines 202--203.\<close>

definition on_resetall :: "nat \<Rightarrow> self \<Rightarrow> locals \<Rightarrow> self \<times> locals" where
  "on_resetall e1 s l = (s\<lparr>defines := []\<rparr>, l\<lparr>pos := e1\<rparr>)"

text \<open>Lines 209--216; \<open>ms\<close> is \<^verbatim>\<open>match.start(1)\<close>.\<close>

definition on_ifdef :: "nat \<Rightarrow> string \<Rightarrow> nat \<Rightarrow> self \<Rightarrow> locals \<Rightarrow> self \<times> locals" where
  "on_ifdef ms name e2 s l =
     (s\<lparr>conditionals := conditionals s @
          [\<lparr>cond_equal = (name \<in> set (defines s)),
            cond_exclude = (\<not> exclude l \<and> name \<notin> set (defines s))\<rparr>]\<rparr>,
      if \<not> exclude l \<and> name \<notin> set (defines s)
      then l\<lparr>exclude := True, exclude_pos_start := ms, pos := e2\<rparr>
      else l\<lparr>pos := e2\<rparr>)"

text \<open>Lines 250--257.\<close>

definition on_ifndef :: "nat \<Rightarrow> string \<Rightarrow> nat \<Rightarrow> self \<Rightarrow> locals \<Rightarrow> self \<times> locals" where
  "on_ifndef ms name e2 s l =
     (s\<lparr>conditionals := conditionals s @
          [\<lparr>cond_equal = (name \<notin> set (defines s)),
            cond_exclude = (\<not> exclude l \<and> name \<in> set (defines s))\<rparr>]\<rparr>,
      if \<not> exclude l \<and> name \<in> set (defines s)
      then l\<lparr>exclude := True, exclude_pos_start := ms, pos := e2\<rparr>
      else l\<lparr>pos := e2\<rparr>)"

text \<open>
  Lines 222--233; \<open>e1\<close> is \<^verbatim>\<open>match.end(1)\<close>. \<^verbatim>\<open>self.conditionals[-1]\<close> raises
  \<^verbatim>\<open>IndexError\<close> on the empty list, in the first branch and in the test of the second.
\<close>

definition on_else :: "nat \<Rightarrow> nat \<Rightarrow> self \<Rightarrow> locals \<Rightarrow> exn + self \<times> locals" where
  "on_else ms e1 s l =
     (if \<not> exclude l then
        (if conditionals s = [] then Inl IndexError
         else Inr (s\<lparr>conditionals := butlast (conditionals s) @
                       [(last (conditionals s))\<lparr>cond_equal := True, cond_exclude := True\<rparr>]\<rparr>,
                   l\<lparr>exclude := True, exclude_pos_start := e1, pos := e1\<rparr>))
      else if conditionals s = [] then Inl IndexError
      else if cond_exclude (last (conditionals s)) then
        Inr (s\<lparr>conditionals := butlast (conditionals s) @
                  [(last (conditionals s))
                     \<lparr>cond_equal := \<not> cond_equal (last (conditionals s)),
                      cond_exclude := False\<rparr>]\<rparr>,
             l\<lparr>exclude := False, regions := regions l @ [(exclude_pos_start l, ms)],
               pos := e1\<rparr>)
      else Inr (s, l\<lparr>pos := e1\<rparr>))"

text \<open>
  Lines 239--244: the test of line 239 reads \<^verbatim>\<open>self.conditionals[-1]\<close> only when
  \<^verbatim>\<open>exclude\<close> holds; line 243 deletes the last entry in every case and raises
  \<^verbatim>\<open>IndexError\<close> on the empty list.
\<close>

definition on_endif :: "nat \<Rightarrow> self \<Rightarrow> locals \<Rightarrow> exn + self \<times> locals" where
  "on_endif e1 s l =
     (if conditionals s = [] then Inl IndexError
      else if exclude l \<and> cond_exclude (last (conditionals s)) then
        Inr (s\<lparr>conditionals := butlast (conditionals s)\<rparr>,
             l\<lparr>exclude := False, regions := regions l @ [(exclude_pos_start l, e1)],
               pos := e1\<rparr>)
      else Inr (s\<lparr>conditionals := butlast (conditionals s)\<rparr>, l\<lparr>pos := e1\<rparr>))"

text \<open>
  Lines 149--259: the patterns are tried in the order of the source, the first that
  matches decides, and a backtick that starts none of them is passed over
  (line 259, \<^verbatim>\<open>pos = match_end\<close>).
\<close>

definition directive ::
  "env \<Rightarrow> (string \<Rightarrow> self \<Rightarrow> outcome) \<Rightarrow> string \<Rightarrow> nat \<Rightarrow> nat \<Rightarrow> self \<Rightarrow> locals
     \<Rightarrow> (exn + self \<times> locals) option" where
  "directive E rec content ms me s l =
     (case match_include content ms of
        Some (name, e2) \<Rightarrow>
          (case include_file E rec name s of
             None \<Rightarrow> None
           | Some (Inl e) \<Rightarrow> Some (Inl e)
           | Some (Inr s') \<Rightarrow> Some (Inr (s', l\<lparr>pos := e2 + 1\<rparr>)))
      | None \<Rightarrow>
     (case match_define content ms of
        Some (name, e2) \<Rightarrow> Some (Inr (on_define name e2 s l))
      | None \<Rightarrow>
     (case match_undef content ms of
        Some (name, e2) \<Rightarrow> Some (Inr (on_undef name e2 s l))
      | None \<Rightarrow>
     (case match_resetall content ms of
        Some e1 \<Rightarrow> Some (Inr (on_resetall e1 s l))
      | None \<Rightarrow>
     (case match_ifdef content ms of
        Some (name, e2) \<Rightarrow> Some (Inr (on_ifdef ms name e2 s l))
      | None \<Rightarrow>
     (case match_else content ms of
        Some e1 \<Rightarrow> Some (on_else ms e1 s l)
      | None \<Rightarrow>
     (case match_endif content ms of
        Some e1 \<Rightarrow> Some (on_endif e1 s l)
      | None \<Rightarrow>
     (case match_ifndef content ms of
        Some (name, e2) \<Rightarrow> Some (Inr (on_ifndef ms name e2 s l))
      | None \<Rightarrow> Some (Inr (s, l\<lparr>pos := me\<rparr>))))))))))"

subsection \<open>The loop\<close>

text \<open>
  Lines 114--263, one pass through the body of \<^verbatim>\<open>while pos < len(content)\<close>. The
  branch of line 261 cannot be reached: the marker is one of the four alternatives.
\<close>

definition iteration ::
  "env \<Rightarrow> (string \<Rightarrow> self \<Rightarrow> outcome) \<Rightarrow> string \<Rightarrow> self \<Rightarrow> locals
     \<Rightarrow> (exn + self \<times> locals) option" where
  "iteration E rec content s l =
     (case search_marker content (pos l) of
        None \<Rightarrow> Some (Inr (s, l\<lparr>pos := length content\<rparr>))
      | Some (ms, me, LineComment) \<Rightarrow>
          (case search_newline content me of
             Some e \<Rightarrow> Some (Inr (s, l\<lparr>pos := e\<rparr>))
           | None \<Rightarrow>
               Some (Inr (s\<lparr>printed := printed s @ [Comment_not_ended]\<rparr>,
                          l\<lparr>pos := length content\<rparr>)))
      | Some (ms, me, BlockComment) \<Rightarrow>
          (case search_comment_end content me of
             Some e \<Rightarrow> Some (Inr (s, l\<lparr>pos := e\<rparr>))
           | None \<Rightarrow>
               Some (Inr (s\<lparr>printed := printed s @ [Multiline_comment_not_ended]\<rparr>,
                          l\<lparr>pos := length content\<rparr>)))
      | Some (ms, me, Quote) \<Rightarrow>
          (case search_quote content me of
             Some e \<Rightarrow> Some (Inr (s, l\<lparr>pos := e\<rparr>))
           | None \<Rightarrow>
               Some (Inr (s\<lparr>printed := printed s @ [String_not_ended]\<rparr>,
                          l\<lparr>pos := length content\<rparr>)))
      | Some (ms, me, Backtick) \<Rightarrow> directive E rec content ms me s l)"

text \<open>
  The loop of \<^verbatim>\<open>preproc\<close> with fuel: each pass through the body and each recursive
  call for an included file takes one unit, and \<open>None\<close> says that the fuel did not
  suffice. The loop may run forever, and so may the recursion when a file includes itself
  (CPython then stops with \<^verbatim>\<open>RecursionError\<close>, which the model does not bound).
\<close>

fun preproc_loop :: "nat \<Rightarrow> env \<Rightarrow> string \<Rightarrow> self \<Rightarrow> locals \<Rightarrow> outcome" where
  "preproc_loop 0 E content s l = None"
| "preproc_loop (Suc n) E content s l =
     (if pos l < length content then
        (case iteration E (\<lambda>c s'. preproc_loop n E c s' initial_locals) content s l of
           None \<Rightarrow> None
         | Some (Inl e) \<Rightarrow> Some (Inl e)
         | Some (Inr (s', l')) \<Rightarrow> preproc_loop n E content s' l')
      else Some (Inr (regions l, s)))"

text \<open>Lines 95--264: \<^verbatim>\<open>preproc(content)\<close> on the object \<open>s\<close>.\<close>

definition preproc :: "nat \<Rightarrow> env \<Rightarrow> string \<Rightarrow> self \<Rightarrow> outcome" where
  "preproc n E content s = preproc_loop n E content s initial_locals"

text \<open>
  Lines 82--89 of \<^verbatim>\<open>track_modifications\<close>: a run starts with the directory of the
  buffer's file as the only entry of \<^verbatim>\<open>self.head\<close> and with no define and no open
  conditional.
\<close>

definition start :: "string \<Rightarrow> self" where
  "start dir = \<lparr>defines = [], conditionals = [], head = [dir], printed = []\<rparr>"

section \<open>Notions used in the statements\<close>

text \<open>
  The file names that lines 155--170 test with \<^verbatim>\<open>os.path.isfile\<close>, in the order of
  the tests: the name joined to the directory on top of \<^verbatim>\<open>self.head\<close>, then to each
  search directory. The first that exists is the file the directive reads.
\<close>

definition candidates :: "env \<Rightarrow> self \<Rightarrow> string \<Rightarrow> string list" where
  "candidates E s name =
     normpath E (path_join E (last (head s)) name) #
     map (\<lambda>incdir. normpath E (path_join E incdir name)) (incdirs E)"

text \<open>
  A region list as the interface promises it: every pair is a half-open interval
  \<open>[a, b)\<close> inside the buffer, and every interval ends before the next begins.
\<close>

definition regions_ok :: "string \<Rightarrow> (nat \<times> nat) list \<Rightarrow> bool" where
  "regions_ok content rs =
     (list_all (\<lambda>(a, b). a \<le> b \<and> b \<le> length content) rs \<and>
      sorted_wrt (\<lambda>(a, b) (a', b'). b \<le> a') rs)"

text \<open>
  What the loop keeps true of its local variables: nothing recorded reaches beyond
  \<^verbatim>\<open>pos\<close>, and an exclusion that is open began after the last region ended.
\<close>

definition scan_inv :: "string \<Rightarrow> locals \<Rightarrow> bool" where
  "scan_inv content l =
     (pos l \<le> length content \<and> regions_ok content (regions l) \<and>
      list_all (\<lambda>(a, b). b \<le> pos l) (regions l) \<and>
      (exclude l \<longrightarrow>
         exclude_pos_start l \<le> pos l \<and>
         list_all (\<lambda>(a, b). b \<le> exclude_pos_start l) (regions l)))"

text \<open>A buffer with no backtick, no double quote, no \<^verbatim>\<open>//\<close> and no \<^verbatim>\<open>/*\<close>.\<close>

definition no_markers :: "string \<Rightarrow> bool" where
  "no_markers content =
     (backtick \<notin> set content \<and> dquote \<notin> set content \<and>
      \<not> sublist ''//'' content \<and> \<not> sublist ''/*'' content)"






section \<open>Example inputs\<close>

text \<open>
  A small file system for the examples: paths are joined with a slash, the search path is
  the one directory \<^verbatim>\<open>lib\<close>, and the files are those of an association list.
\<close>

definition posix_dirname :: "string \<Rightarrow> string" where
  "posix_dirname p = rev (drop 1 (dropWhile (\<lambda>x. x \<noteq> CHR ''/'') (rev p)))"

definition example_env :: "(string \<times> file_result) list \<Rightarrow> env" where
  "example_env files =
     \<lparr>incdirs = [''lib''], path_join = (\<lambda>d p. d @ ''/'' @ p), normpath = (\<lambda>p. p),
      split_head = posix_dirname, isfile = (\<lambda>p. map_of files p \<noteq> None),
      open_read = (\<lambda>p. case map_of files p of Some r \<Rightarrow> r | None \<Rightarrow> Open_OSError)\<rparr>"

definition unreadable_env :: env where
  "unreadable_env = example_env [(''lib/f.vh'', Open_OSError)]"

text \<open>The line \<^verbatim>\<open>`include "f.vh"\<close>.\<close>

definition include_line :: string where
  "include_line = ''`include '' @ [dquote] @ ''f.vh'' @ [dquote, newline]"

text \<open>Two macros are defined twice or removed without being defined.\<close>

definition define_twice :: string where
  "define_twice = ''`define A'' @ [newline] @ ''`define A'' @ [newline]"

definition undef_absent :: string where
  "undef_absent = ''`undef A'' @ [newline]"

text \<open>
  A header with an excluded block of its own and a define, and a buffer that includes it
  and then tests the macro.
\<close>

definition header_text :: string where
  "header_text =
     ''`ifdef Y'' @ [newline] @ ''z'' @ [newline] @ ''`endif'' @ [newline] @
     ''`define X'' @ [newline]"

definition header_env :: env where
  "header_env = example_env [(''lib/f.vh'', Text header_text)]"

definition include_then_ifdef :: string where
  "include_then_ifdef =
     include_line @ ''`ifdef X'' @ [newline] @ ''foo'' @ [newline] @ ''`endif'' @ [newline]"

definition after_header :: self where
  "after_header =
     \<lparr>defines = [''X''], conditionals = [], head = [''d'', ''lib''], printed = []\<rparr>"

text \<open>
  A conditional inside an excluded conditional; the same with an include in the inner
  block; the object inside the excluded outer block; and the local variables while the
  outer block is excluded.
\<close>

definition nested :: string where
  "nested =
     ''`ifdef A'' @ [newline] @ ''`ifdef B'' @ [newline] @ ''x'' @ [newline] @
     ''`else'' @ [newline] @ ''y'' @ [newline] @
     ''`endif'' @ [newline] @ ''foo'' @ [newline] @ ''`endif'' @ [newline]"


definition outer_only :: self where
  "outer_only =
     \<lparr>defines = [], conditionals = [\<lparr>cond_equal = False, cond_exclude = True\<rparr>],
      head = [''d''], printed = []\<rparr>"

definition excluding_from_0 :: "nat \<Rightarrow> locals" where
  "excluding_from_0 p = \<lparr>pos = p, exclude = True, exclude_pos_start = 0, regions = []\<rparr>"

text \<open>A define in a line comment, in a block comment and in a string.\<close>

definition commented_define :: string where
  "commented_define =
     ''// `define A'' @ [newline] @ ''/* `define A */'' @
     [dquote] @ ''`define A'' @ [dquote, newline] @
     ''`ifdef A'' @ [newline] @ ''y'' @ [newline] @ ''`endif'' @ [newline]"

text \<open>
  Two strings: the first holds one escaped backslash, the second the text of a define
  directive.
\<close>

definition two_strings :: string where
  "two_strings =
     [dquote, backslash, backslash, dquote, CHR '' '', dquote] @ ''`define A'' @
     [dquote, newline]"

text \<open>A string that holds one escaped backslash, before a conditional block.\<close>

definition escaped_backslash :: string where
  "escaped_backslash =
     [dquote, backslash, backslash, dquote, newline] @
     ''`ifdef A'' @ [newline] @ ''x'' @ [newline] @ ''`endif'' @ [newline]"

text \<open>Two excluded blocks and a buffer without markers.\<close>

definition two_blocks :: string where
  "two_blocks =
     ''`ifdef A'' @ [newline] @ ''x'' @ [newline] @ ''`endif'' @ [newline] @
     ''`ifdef B'' @ [newline] @ ''y'' @ [newline] @ ''`endif'' @ [newline]"

definition plain_text :: string where
  "plain_text = ''module m; wire a / b; endmodule''"




text \<open>
  An excluded block that holds a define, an undef, a resetall and an include, before a
  block that tests the macro of the included header; and a block whose \<^verbatim>\<open>`endif\<close>
  ends the buffer.
\<close>

definition directives_in_excluded :: string where
  "directives_in_excluded =
     ''`ifdef A'' @ [newline] @ ''`define B'' @ [newline] @ ''`undef B'' @ [newline] @
     ''`resetall'' @ [newline] @ include_line @ ''`endif'' @ [newline] @
     ''`ifdef X'' @ [newline] @ ''y'' @ [newline] @ ''`endif'' @ [newline]"

definition endif_at_end :: string where
  "endif_at_end = ''`ifdef A'' @ [newline] @ ''x'' @ [newline] @ ''`endif''"

section \<open>Facts about the regular expressions\<close>

lemmas eval_defs = search_marker_def marker_at_def search_newline_def search_comment_end_def
  search_quote_def keyword_def ident_token_def match_spaces_ident_def match_word_def
  match_include_def match_define_def match_undef_def match_ifdef_def match_ifndef_def
  match_resetall_def match_else_def match_endif_def ident_start_def ident_char_def
  space_char_def on_define_def on_undef_def on_resetall_def on_ifdef_def on_ifndef_def
  on_else_def on_endif_def include_file_def read_and_scan_def directive_def iteration_def
  initial_locals_def start_def preproc_def example_env_def posix_dirname_def candidates_def
  include_line_def

lemma keyword_Some: "keyword k s = Some r \<longleftrightarrow> s = k @ r"
  by (auto simp: keyword_def) (metis append_take_drop_id)

lemma keyword_simps:
  "keyword [] s = Some s"
  "keyword (x # k) [] = None"
  "keyword (x # k) (y # s) = (if x = y then keyword k s else None)"
  by (auto simp: keyword_def)

lemma marker_at_bounds: "marker_at s = Some (n, m) \<Longrightarrow> 0 < n \<and> n \<le> length s"
  by (auto simp: marker_at_def split: if_splits dest!: arg_cong [where f = length])

lemma find_marker_bounds:
  "find_marker xs i = Some (ms, me, x) \<Longrightarrow> i \<le> ms \<and> ms < me \<and> me \<le> i + length xs"
proof (induction xs arbitrary: i)
  case Nil
  then show ?case by simp
next
  case (Cons a xs)
  show ?case
  proof (cases "marker_at (a # xs)")
    case None
    with Cons.prems have "find_marker xs (i + 1) = Some (ms, me, x)" by simp
    from Cons.IH [OF this] show ?thesis by simp
  next
    case (Some nm)
    then obtain n m where nm: "marker_at (a # xs) = Some (n, m)" by (cases nm) auto
    with Cons.prems marker_at_bounds [OF nm] show ?thesis by auto
  qed
qed

lemma search_marker_pos:
  assumes "search_marker c p = Some (ms, me, x)"
  shows "p \<le> ms \<and> ms < me \<and> me \<le> length c \<and> p < length c"
proof -
  from assms have f: "find_marker (drop p c) p = Some (ms, me, x)"
    by (simp add: search_marker_def)
  then have "drop p c \<noteq> []" by auto
  then have "p < length c" by simp
  with find_marker_bounds [OF f] show ?thesis by simp
qed

lemma find_literal_bounds:
  "find_literal k xs i = Some e \<Longrightarrow> i + length k \<le> e \<and> e \<le> i + length xs"
proof (induction xs arbitrary: i)
  case Nil
  then show ?case by simp
next
  case (Cons a xs)
  show ?case
  proof (cases "take (length k) (a # xs) = k")
    case True
    then have "length (take (length k) (a # xs)) = length k"
      by (rule arg_cong)
    then have "length k \<le> length (a # xs)"
      by simp
    with True Cons.prems show ?thesis by simp
  next
    case False
    with Cons.prems have "find_literal k xs (i + 1) = Some e" by simp
    from Cons.IH [OF this] show ?thesis by simp
  qed
qed

lemma find_quote_bounds:
  "find_quote prev xs i = Some e \<Longrightarrow> i < e \<and> e \<le> i + length xs"
proof (induction xs arbitrary: i prev)
  case Nil
  then show ?case by simp
next
  case (Cons a xs)
  show ?case
  proof (cases "a = dquote \<and> prev \<noteq> Some backslash")
    case True
    with Cons.prems show ?thesis by auto
  next
    case False
    with Cons.prems have "find_quote (Some a) xs (i + 1) = Some e" by auto
    from Cons.IH [OF this] show ?thesis by simp
  qed
qed

lemma search_newline_bounds:
  "search_newline c p = Some e \<Longrightarrow> p \<le> length c \<Longrightarrow> p < e \<and> e \<le> length c"
  unfolding search_newline_def by (drule find_literal_bounds) simp

lemma search_comment_end_bounds:
  "search_comment_end c p = Some e \<Longrightarrow> p \<le> length c \<Longrightarrow> p < e \<and> e \<le> length c"
  unfolding search_comment_end_def by (drule find_literal_bounds) simp

lemma search_quote_bounds:
  "search_quote c p = Some e \<Longrightarrow> p \<le> length c \<Longrightarrow> p < e \<and> e \<le> length c"
  unfolding search_quote_def by (drule find_quote_bounds) simp

text \<open>
  The quote that closes a string is never directly behind a backslash, however many
  backslashes precede it.
\<close>

lemma find_quote_sound:
  "find_quote prev xs i = Some e \<Longrightarrow>
   \<exists>j. j < length xs \<and> e = i + j + 1 \<and> xs ! j = dquote \<and>
       (if j = 0 then prev else Some (xs ! (j - 1))) \<noteq> Some backslash"
proof (induction xs arbitrary: prev i)
  case Nil
  then show ?case by simp
next
  case (Cons x xs)
  show ?case
  proof (cases "x = dquote \<and> prev \<noteq> Some backslash")
    case True
    with Cons.prems have "e = i + 0 + 1" by simp
    with True show ?thesis by (intro exI [of _ 0]) simp
  next
    case False
    with Cons.prems have "find_quote (Some x) xs (i + 1) = Some e" by auto
    from Cons.IH [OF this] obtain j where j: "j < length xs" "e = i + 1 + j + 1"
      "xs ! j = dquote" "(if j = 0 then Some x else Some (xs ! (j - 1))) \<noteq> Some backslash"
      by blast
    then show ?thesis
      by (intro exI [of _ "Suc j"]) (cases j; simp)
  qed
qed

lemma closing_quote_not_after_backslash:
  assumes "search_quote content p = Some e" and "0 < p"
  shows "content ! (e - 1) = dquote \<and> content ! (e - 2) \<noteq> backslash"
proof -
  from assms(1) have ne: "drop p content \<noteq> []"
    by (auto simp: search_quote_def)
  then have p: "p < length content" by simp
  with assms have "find_quote (Some (content ! (p - 1))) (drop p content) p = Some e"
    by (simp add: search_quote_def)
  from find_quote_sound [OF this] obtain j where j: "j < length (drop p content)"
    "e = p + j + 1" "drop p content ! j = dquote"
    "(if j = 0 then Some (content ! (p - 1)) else Some (drop p content ! (j - 1)))
       \<noteq> Some backslash"
    by blast
  from j(1,3) have "content ! (p + j) = dquote" by simp
  moreover have "content ! (p + j - 1) \<noteq> backslash"
  proof (cases j)
    case 0
    with j(4) show ?thesis by simp
  next
    case (Suc k)
    with j(1,4) have "drop p content ! k \<noteq> backslash" by simp
    moreover from Suc j(1) have "drop p content ! k = content ! (p + k)" by simp
    ultimately show ?thesis using Suc by simp
  qed
  ultimately show ?thesis using j(2) by simp
qed

lemma match_word_bounds:
  "match_word k c ms = Some e \<Longrightarrow> e = ms + length k \<and> e < length c"
  by (auto simp: match_word_def keyword_Some split: option.splits list.splits if_splits
      dest!: arg_cong [where f = length])

lemma ident_token_length: "ident_token r = Some name \<Longrightarrow> 0 < length name \<and> length name \<le> length r"
  by (auto simp: ident_token_def split: list.splits if_splits intro: le_trans [OF length_takeWhile_le])

lemma match_spaces_ident_bounds:
  "match_spaces_ident k c ms = Some (name, e) \<Longrightarrow> ms + length k < e \<and> e \<le> length c"
proof -
  assume a: "match_spaces_ident k c ms = Some (name, e)"
  then obtain r where r: "drop ms c = k @ r" 
    and n: "ident_token (dropWhile space_char r) = Some name"
    and e: "e = ms + length k + length (takeWhile space_char r) + length name"
    by (auto simp: match_spaces_ident_def keyword_Some Let_def split: option.splits if_splits)
  from n have "0 < length name" "length name \<le> length (dropWhile space_char r)"
    using ident_token_length by blast+
  moreover have "length (takeWhile space_char r) + length (dropWhile space_char r) = length r"
    by (metis length_append takeWhile_dropWhile_id)
  moreover from r have "length c - ms = length k + length r"
    by (metis length_append length_drop)
  ultimately show ?thesis using e by linarith
qed

lemma match_define_bounds:
  "match_define c ms = Some (name, e) \<Longrightarrow> ms + 8 < e \<and> e \<le> length c"
proof -
  assume a: "match_define c ms = Some (name, e)"
  then obtain r where r: "drop ms c = ''`define '' @ r" 
    and n: "ident_token r = Some name"
    and e: "e = ms + 8 + length name"
    by (auto simp: match_define_def keyword_Some split: option.splits)
  from n have "0 < length name" "length name \<le> length r"
    using ident_token_length by blast+
  moreover have "length (drop ms c) = 8 + length r"
    by (simp add: r)
  then have "length c - ms = 8 + length r"
    by simp
  ultimately show ?thesis using e by linarith
qed

lemma match_include_bounds:
  "match_include c ms = Some (name, e) \<Longrightarrow> ms + 10 < e \<and> e < length c"
proof -
  assume a: "match_include c ms = Some (name, e)"
  then obtain r where r: "drop ms c = ''`include '' @ [dquote] @ r" 
    and n: "takeWhile (\<lambda>x. x \<noteq> dquote) r \<noteq> []" "length (takeWhile (\<lambda>x. x \<noteq> dquote) r) \<noteq> length r"
    and e: "e = ms + 10 + length (takeWhile (\<lambda>x. x \<noteq> dquote) r)"
    by (auto simp: match_include_def keyword_Some Let_def split: option.splits if_splits)
  from n have "0 < length (takeWhile (\<lambda>x. x \<noteq> dquote) r)" "length (takeWhile (\<lambda>x. x \<noteq> dquote) r) < length r"
    using length_takeWhile_le [of "\<lambda>x. x \<noteq> dquote" r] by (simp, linarith)
  moreover have "length (drop ms c) = 10 + length r"
    by (simp add: r)
  then have "length c - ms = 10 + length r"
    by simp
  ultimately show ?thesis using e by linarith
qed

lemma match_undef_bounds: "match_undef c ms = Some (name, e) \<Longrightarrow> ms < e \<and> e \<le> length c"
  using match_spaces_ident_bounds [of "''`undef''" c ms name e] by (simp add: match_undef_def)

lemma match_ifdef_bounds: "match_ifdef c ms = Some (name, e) \<Longrightarrow> ms < e \<and> e \<le> length c"
  using match_spaces_ident_bounds [of "''`ifdef''" c ms name e] by (simp add: match_ifdef_def)

lemma match_ifndef_bounds: "match_ifndef c ms = Some (name, e) \<Longrightarrow> ms < e \<and> e \<le> length c"
  using match_spaces_ident_bounds [of "''`ifndef''" c ms name e] by (simp add: match_ifndef_def)

lemma match_resetall_bounds: "match_resetall c ms = Some e \<Longrightarrow> e = ms + 9 \<and> e < length c"
  using match_word_bounds [of "''`resetall''" c ms e] by (simp add: match_resetall_def)

lemma match_else_bounds: "match_else c ms = Some e \<Longrightarrow> e = ms + 5 \<and> e < length c"
  using match_word_bounds [of "''`else''" c ms e] by (simp add: match_else_def)

lemma match_endif_bounds: "match_endif c ms = Some e \<Longrightarrow> e = ms + 6 \<and> e < length c"
  using match_word_bounds [of "''`endif''" c ms e] by (simp add: match_endif_def)

lemma match_include_text:
  assumes "match_include c ms = Some (name, e2)"
  shows "c ! e2 = dquote \<and> take (e2 - (ms + 10)) (drop (ms + 10) c) = name"
proof -
  let ?p = "\<lambda>x. x \<noteq> dquote"
  from assms obtain r where r: "drop ms c = ''`include '' @ [dquote] @ r"
    and n: "name = takeWhile ?p r" "length (takeWhile ?p r) \<noteq> length r"
    and e: "e2 = ms + 10 + length name"
    by (auto simp: match_include_def keyword_Some Let_def split: option.splits if_splits)
  have d: "drop (ms + 10) c = r"
    using arg_cong [where f = "drop 10", OF r] by (simp add: add.commute)
  from n have lt: "length name < length r"
    using length_takeWhile_le [of ?p r] by simp
  with n have "\<not> ?p (r ! length name)"
    using nth_length_takeWhile [of ?p r] by simp
  moreover have "c ! e2 = r ! length name"
  proof -
    have "ms + 10 + length name < length c"
      using match_include_bounds [OF assms] e by simp
    then have "drop (ms + 10) c ! length name = c ! (ms + 10 + length name)"
      by simp
    with d e show ?thesis by simp
  qed
  moreover have "take (length name) r = name"
    using n(1) by (metis takeWhile_eq_take)
  ultimately show ?thesis using d e by simp
qed

lemma match_word_keyword: "match_word k c ms = Some e \<Longrightarrow> \<exists>r. drop ms c = k @ r"
  by (auto simp: match_word_def keyword_Some split: option.splits)

lemma match_spaces_ident_keyword:
  "match_spaces_ident k c ms = Some v \<Longrightarrow> \<exists>r. drop ms c = k @ r"
  by (auto simp: match_spaces_ident_def keyword_Some split: option.splits)

lemma match_define_keyword: "match_define c ms = Some v \<Longrightarrow> \<exists>r. drop ms c = ''`define '' @ r"
  by (auto simp: match_define_def keyword_Some split: option.splits)

section \<open>Facts about the dispatch\<close>

text \<open>
  The keywords differ, so a pattern that matches is the first that does, and
  \<^const>\<open>directive\<close> runs its branch.
\<close>

lemma directive_include:
  "match_include c ms = Some (name, e2) \<Longrightarrow>
   directive E rec c ms me s l =
     (case include_file E rec name s of None \<Rightarrow> None | Some (Inl e) \<Rightarrow> Some (Inl e)
      | Some (Inr s') \<Rightarrow> Some (Inr (s', l\<lparr>pos := e2 + 1\<rparr>)))"
  by (simp add: directive_def)

lemma directive_define:
  assumes "match_define c ms = Some (name, e2)"
  shows "directive E rec c ms me s l = Some (Inr (on_define name e2 s l))"
proof -
  from match_define_keyword [OF assms] obtain r where "drop ms c = ''`define '' @ r" ..
  then have "match_include c ms = None"
    by (simp add: match_include_def keyword_simps)
  with assms show ?thesis by (simp add: directive_def)
qed

lemma directive_undef:
  assumes "match_undef c ms = Some (name, e2)"
  shows "directive E rec c ms me s l = Some (Inr (on_undef name e2 s l))"
proof -
  from match_spaces_ident_keyword [OF assms [unfolded match_undef_def]]
  obtain r where "drop ms c = ''`undef'' @ r" ..
  then have "match_include c ms = None" "match_define c ms = None"
    by (simp_all add: match_include_def match_define_def keyword_simps)
  with assms show ?thesis by (simp add: directive_def)
qed

lemma directive_resetall:
  assumes "match_resetall c ms = Some e1"
  shows "directive E rec c ms me s l = Some (Inr (on_resetall e1 s l))"
proof -
  from match_word_keyword [OF assms [unfolded match_resetall_def]]
  obtain r where "drop ms c = ''`resetall'' @ r" ..
  then have "match_include c ms = None" "match_define c ms = None" "match_undef c ms = None"
    by (simp_all add: match_include_def match_define_def match_undef_def
        match_spaces_ident_def keyword_simps)
  with assms show ?thesis by (simp add: directive_def)
qed

lemma directive_ifdef:
  assumes "match_ifdef c ms = Some (name, e2)"
  shows "directive E rec c ms me s l = Some (Inr (on_ifdef ms name e2 s l))"
proof -
  from match_spaces_ident_keyword [OF assms [unfolded match_ifdef_def]]
  obtain r where "drop ms c = ''`ifdef'' @ r" ..
  then have "match_include c ms = None" "match_define c ms = None" "match_undef c ms = None"
    "match_resetall c ms = None"
    by (simp_all add: match_include_def match_define_def match_undef_def match_resetall_def
        match_word_def match_spaces_ident_def keyword_simps)
  with assms show ?thesis by (simp add: directive_def)
qed

lemma directive_else:
  assumes "match_else c ms = Some e1"
  shows "directive E rec c ms me s l = Some (on_else ms e1 s l)"
proof -
  from match_word_keyword [OF assms [unfolded match_else_def]]
  obtain r where "drop ms c = ''`else'' @ r" ..
  then have "match_include c ms = None" "match_define c ms = None" "match_undef c ms = None"
    "match_resetall c ms = None" "match_ifdef c ms = None"
    by (simp_all add: match_include_def match_define_def match_undef_def match_resetall_def
        match_ifdef_def match_word_def match_spaces_ident_def keyword_simps)
  with assms show ?thesis by (simp add: directive_def)
qed

lemma directive_endif:
  assumes "match_endif c ms = Some e1"
  shows "directive E rec c ms me s l = Some (on_endif e1 s l)"
proof -
  from match_word_keyword [OF assms [unfolded match_endif_def]]
  obtain r where "drop ms c = ''`endif'' @ r" ..
  then have "match_include c ms = None" "match_define c ms = None" "match_undef c ms = None"
    "match_resetall c ms = None" "match_ifdef c ms = None" "match_else c ms = None"
    by (simp_all add: match_include_def match_define_def match_undef_def match_resetall_def
        match_ifdef_def match_else_def match_word_def match_spaces_ident_def keyword_simps)
  with assms show ?thesis by (simp add: directive_def)
qed

lemma directive_ifndef:
  assumes "match_ifndef c ms = Some (name, e2)"
  shows "directive E rec c ms me s l = Some (Inr (on_ifndef ms name e2 s l))"
proof -
  from match_spaces_ident_keyword [OF assms [unfolded match_ifndef_def]]
  obtain r where "drop ms c = ''`ifndef'' @ r" ..
  then have "match_include c ms = None" "match_define c ms = None" "match_undef c ms = None"
    "match_resetall c ms = None" "match_ifdef c ms = None" "match_else c ms = None"
    "match_endif c ms = None"
    by (simp_all add: match_include_def match_define_def match_undef_def match_resetall_def
        match_ifdef_def match_else_def match_endif_def match_word_def match_spaces_ident_def
        keyword_simps)
  with assms show ?thesis by (simp add: directive_def)
qed

lemma directive_cases [case_names Include Define Undef Resetall Ifdef Else Endif Ifndef Other]:
  obtains
    (Include) name e2 where "match_include c ms = Some (name, e2)"
      "directive E rec c ms me s l =
         (case include_file E rec name s of None \<Rightarrow> None | Some (Inl e) \<Rightarrow> Some (Inl e)
          | Some (Inr s') \<Rightarrow> Some (Inr (s', l\<lparr>pos := e2 + 1\<rparr>)))"
  | (Define) name e2 where "match_define c ms = Some (name, e2)"
      "directive E rec c ms me s l = Some (Inr (on_define name e2 s l))"
  | (Undef) name e2 where "match_undef c ms = Some (name, e2)"
      "directive E rec c ms me s l = Some (Inr (on_undef name e2 s l))"
  | (Resetall) e1 where "match_resetall c ms = Some e1"
      "directive E rec c ms me s l = Some (Inr (on_resetall e1 s l))"
  | (Ifdef) name e2 where "match_ifdef c ms = Some (name, e2)"
      "directive E rec c ms me s l = Some (Inr (on_ifdef ms name e2 s l))"
  | (Else) e1 where "match_else c ms = Some e1"
      "directive E rec c ms me s l = Some (on_else ms e1 s l)"
  | (Endif) e1 where "match_endif c ms = Some e1"
      "directive E rec c ms me s l = Some (on_endif e1 s l)"
  | (Ifndef) name e2 where "match_ifndef c ms = Some (name, e2)"
      "directive E rec c ms me s l = Some (Inr (on_ifndef ms name e2 s l))"
  | (Other) "match_include c ms = None" "match_define c ms = None" "match_undef c ms = None"
      "match_resetall c ms = None" "match_ifdef c ms = None" "match_else c ms = None"
      "match_endif c ms = None" "match_ifndef c ms = None"
      "directive E rec c ms me s l = Some (Inr (s, l\<lparr>pos := me\<rparr>))"
proof (cases "match_include c ms")
  case (Some v)
  then show ?thesis by (cases v) (auto simp: directive_def intro: Include)
next
  case inc: None
  show ?thesis
  proof (cases "match_define c ms")
    case (Some v)
    then show ?thesis by (cases v) (auto simp: directive_define intro: Define)
  next
    case def: None
    show ?thesis
    proof (cases "match_undef c ms")
      case (Some v)
      then show ?thesis by (cases v) (auto simp: directive_undef intro: Undef)
    next
      case und: None
      show ?thesis
      proof (cases "match_resetall c ms")
        case (Some e1)
        then show ?thesis by (auto simp: directive_resetall intro: Resetall)
      next
        case res: None
        show ?thesis
        proof (cases "match_ifdef c ms")
          case (Some v)
          then show ?thesis by (cases v) (auto simp: directive_ifdef intro: Ifdef)
        next
          case ifd: None
          show ?thesis
          proof (cases "match_else c ms")
            case (Some e1)
            then show ?thesis by (auto simp: directive_else intro: Else)
          next
            case els: None
            show ?thesis
            proof (cases "match_endif c ms")
              case (Some e1)
              then show ?thesis by (auto simp: directive_endif intro: Endif)
            next
              case eif: None
              show ?thesis
              proof (cases "match_ifndef c ms")
                case (Some v)
                then show ?thesis by (cases v) (auto simp: directive_ifndef intro: Ifndef)
              next
                case None
                with inc def und res ifd els eif show ?thesis
                  by (auto simp: directive_def intro: Other)
              qed
            qed
          qed
        qed
      qed
    qed
  qed
qed

lemma iteration_directive:
  "search_marker c (pos l) = Some (ms, me, Backtick) \<Longrightarrow>
   iteration E rec c s l = directive E rec c ms me s l"
  by (simp add: iteration_def)

lemma incdirs_loop_find:
  "incdirs_loop E rec name ds s =
     (case find (isfile E) (map (\<lambda>incdir. normpath E (path_join E incdir name)) ds) of
        None \<Rightarrow> Some (Inr s) | Some fn \<Rightarrow> read_and_scan E rec fn s)"
  by (induction ds) (simp_all add: Let_def)

lemma include_file_find:
  "head s \<noteq> [] \<Longrightarrow>
   include_file E rec name s =
     (case find (isfile E) (candidates E s name) of
        None \<Rightarrow> Some (Inr s) | Some fn \<Rightarrow> read_and_scan E rec fn s)"
  by (simp add: include_file_def candidates_def incdirs_loop_find Let_def)

section \<open>Facts about the loop\<close>

text \<open>A pass that changes nothing is repeated for ever.\<close>

lemma stuck_loop:
  assumes "pos l < length c"
    and "\<And>m. iteration E (\<lambda>c' s'. preproc_loop m E c' s' initial_locals) c s l = Some (Inr (s, l))"
  shows "preproc_loop n E c s l = None"
  using assms by (induction n) simp_all

lemma stuck_directive:
  assumes "pos l < length content"
    and "search_marker content (pos l) = Some (ms, me, Backtick)"
    and "match_define content ms = Some (name, e2) \<and> name \<in> set (defines s) \<or>
         match_undef content ms = Some (name, e2) \<and> name \<notin> set (defines s)"
  shows "preproc_loop n E content s l = None"
proof (rule stuck_loop [OF assms(1)])
  fix m
  from assms(3) show "iteration E (\<lambda>c' s'. preproc_loop m E c' s' initial_locals) content s l
      = Some (Inr (s, l))"
    by (auto simp: iteration_directive [OF assms(2)] directive_define directive_undef
        on_define_def on_undef_def)
qed

lemma else_endif_raise:
  assumes "search_marker content (pos l) = Some (ms, me, Backtick)"
    and "match_else content ms = Some e1 \<or> match_endif content ms = Some e1"
    and "conditionals s = []"
  shows "preproc_loop (Suc n) E content s l = Some (Inl IndexError)"
  using assms(2,3) search_marker_pos [OF assms(1)]
  by (auto simp: iteration_directive [OF assms(1)]
      directive_else directive_endif on_else_def on_endif_def)

text \<open>More fuel does not change a result.\<close>

lemma read_and_scan_mono:
  assumes "\<And>c s r. rec c s = Some r \<Longrightarrow> rec' c s = Some r"
    and "read_and_scan E rec fn s = Some r"
  shows "read_and_scan E rec' fn s = Some r"
proof (cases "open_read E fn")
  case (Text t)
  with assms(2) obtain x where x: "rec t (s\<lparr>head := head s @ [split_head E fn]\<rparr>) = Some x"
    by (auto simp: read_and_scan_def split: option.splits)
  from assms(1) [OF x] x assms(2) Text show ?thesis
    by (simp add: read_and_scan_def)
qed (use assms(2) in \<open>simp_all add: read_and_scan_def\<close>)

lemma incdirs_loop_mono:
  assumes "\<And>c s r. rec c s = Some r \<Longrightarrow> rec' c s = Some r"
    and "incdirs_loop E rec name ds s = Some r"
  shows "incdirs_loop E rec' name ds s = Some r"
  using assms(2) read_and_scan_mono [of rec rec', OF assms(1)]
  by (induction ds) (auto simp: Let_def)

lemma include_file_mono:
  assumes "\<And>c s r. rec c s = Some r \<Longrightarrow> rec' c s = Some r"
    and "include_file E rec name s = Some r"
  shows "include_file E rec' name s = Some r"
  using assms(2) read_and_scan_mono [of rec rec', OF assms(1)]
    incdirs_loop_mono [of rec rec', OF assms(1)]
  by (auto simp: include_file_def Let_def split: if_splits)

lemma directive_mono:
  assumes "\<And>c s r. rec c s = Some r \<Longrightarrow> rec' c s = Some r"
    and "directive E rec c ms me s l = Some r"
  shows "directive E rec' c ms me s l = Some r"
proof (cases "match_include c ms")
  case None
  with assms(2) show ?thesis by (simp add: directive_def)
next
  case (Some v)
  obtain name e2 where v: "v = (name, e2)" by (cases v)
  from assms(2) Some v obtain x where x: "include_file E rec name s = Some x"
    by (auto simp: directive_def split: option.splits)
  from include_file_mono [of rec rec', OF assms(1) x] x assms(2) Some v show ?thesis
    by (simp add: directive_def)
qed

lemma iteration_mono:
  assumes "\<And>c s r. rec c s = Some r \<Longrightarrow> rec' c s = Some r"
    and "iteration E rec c s l = Some r"
  shows "iteration E rec' c s l = Some r"
  using assms(2) directive_mono [of rec rec', OF assms(1)]
  by (auto simp: iteration_def split: option.splits marker.splits)

lemma preproc_loop_Suc:
  "preproc_loop n E c s l = Some r \<Longrightarrow> preproc_loop (Suc n) E c s l = Some r"
proof (induction n arbitrary: c s l r)
  case 0
  then show ?case by simp
next
  case (Suc n)
  show ?case
  proof (cases "pos l < length c")
    case False
    with Suc.prems show ?thesis by simp
  next
    case True
    let ?rec = "\<lambda>k c' s'. preproc_loop k E c' s' initial_locals"
    from True Suc.prems obtain x where x: "iteration E (?rec n) c s l = Some x"
      by (auto split: option.splits)
    have x': "iteration E (?rec (Suc n)) c s l = Some x"
      by (rule iteration_mono [OF _ x]) (rule Suc.IH)
    show ?thesis
    proof (cases x)
      case (Inl e)
      with True x x' Suc.prems show ?thesis by simp
    next
      case (Inr b)
      obtain s' l' where b: "b = (s', l')" by (cases b)
      with True x Inr Suc.prems have "preproc_loop n E c s' l' = Some r" by simp
      from Suc.IH [OF this] True x' Inr b show ?thesis by simp
    qed
  qed
qed

lemma more_fuel:
  assumes "preproc n E c s = Some r" and "n \<le> m"
  shows "preproc m E c s = Some r"
proof -
  have "preproc_loop (n + k) E c s initial_locals = Some r" for k
  proof (induction k)
    case 0
    from assms(1) show ?case by (simp add: preproc_def)
  next
    case (Suc k)
    from preproc_loop_Suc [OF Suc] show ?case by simp
  qed
  from this [of "m - n"] assms(2) show ?thesis by (simp add: preproc_def)
qed

text \<open>A call of \<^verbatim>\<open>preproc\<close> that returns leaves \<^verbatim>\<open>self.head\<close> no shorter.\<close>

lemma iteration_head:
  assumes rec: "\<And>c s rs s'. rec c s = Some (Inr (rs, s')) \<Longrightarrow> length (head s) \<le> length (head s')"
    and it: "iteration E rec c s l = Some (Inr (s', l'))"
  shows "length (head s) \<le> length (head s')"
proof -
  have ras: "length (head s) \<le> length (head t)"
    if "read_and_scan E rec fn s = Some (Inr t)" for fn t
    using that rec [of _ "s\<lparr>head := head s @ [split_head E fn]\<rparr>"]
    by (fastforce simp: read_and_scan_def
        split: file_result.splits option.splits sum.splits if_splits)
  have inc: "length (head s) \<le> length (head t)"
    if "include_file E rec name s = Some (Inr t)" for name t
  proof (cases "head s = []")
    case True
    then show ?thesis by simp
  next
    case False
    with that ras show ?thesis
      by (auto simp: include_file_find split: option.splits)
  qed
  show ?thesis
  proof (cases "search_marker c (pos l)")
    case None
    with it show ?thesis by (simp add: iteration_def)
  next
    case (Some v)
    obtain ms me m where v: "v = (ms, me, m)" by (cases v)
    show ?thesis
    proof (cases m)
      case Backtick
      with it Some v have d: "directive E rec c ms me s l = Some (Inr (s', l'))"
        by (simp add: iteration_def)
      show ?thesis
      proof (cases rule: directive_cases [of c ms E rec me s l])
        case (Include name e2)
        with d inc show ?thesis by (auto split: option.splits sum.splits)
      next
        case (Else e1)
        with d show ?thesis by (auto simp: on_else_def split: if_splits)
      next
        case (Endif e1)
        with d show ?thesis by (auto simp: on_endif_def split: if_splits)
      qed (use d in \<open>auto simp: on_define_def on_undef_def on_resetall_def on_ifdef_def
            on_ifndef_def split: if_splits\<close>)
    qed (use it Some v in \<open>auto simp: iteration_def split: option.splits\<close>)
  qed
qed

lemma head_grows:
  "preproc_loop n E c s l = Some (Inr (rs, s')) \<Longrightarrow> length (head s) \<le> length (head s')"
proof (induction n arbitrary: c s l rs s')
  case 0
  then show ?case by simp
next
  case (Suc n)
  show ?case
  proof (cases "pos l < length c")
    case False
    with Suc.prems show ?thesis by simp
  next
    case True
    with Suc.prems obtain s1 l1 where
      it: "iteration E (\<lambda>c s'. preproc_loop n E c s' initial_locals) c s l = Some (Inr (s1, l1))"
      and rest: "preproc_loop n E c s1 l1 = Some (Inr (rs, s'))"
      by (auto split: option.splits sum.splits)
    have "length (head s) \<le> length (head s1)"
      by (rule iteration_head [OF _ it]) (rule Suc.IH)
    also have "\<dots> \<le> length (head s')"
      by (rule Suc.IH [OF rest])
    finally show ?thesis .
  qed
qed

lemma read_error_keeps_directory:
  assumes m: "search_marker content (pos l) = Some (ms, me, Backtick)"
    and i: "match_include content ms = Some (name, e2)"
    and h: "head s \<noteq> []"
    and f: "find (isfile E) (candidates E s name) = Some file_name"
    and t: "open_read E file_name = Read_OSError"
  shows "preproc_loop (Suc n) E content s l =
           preproc_loop n E content
             (s\<lparr>head := head s @ [split_head E file_name],
                printed := printed s @ [Cant_open file_name]\<rparr>)
             (l\<lparr>pos := e2 + 1\<rparr>)"
  using t f h search_marker_pos [OF m]
  by (simp add: iteration_directive [OF m] directive_include [OF i]
      include_file_find read_and_scan_def)

text \<open>The invariant of the region list.\<close>

lemma scan_inv_initial: "scan_inv c initial_locals"
  by (simp add: scan_inv_def initial_locals_def regions_ok_def)

lemma scan_inv_pos:
  assumes "scan_inv c l" and "pos l \<le> e" and "e \<le> length c"
  shows "scan_inv c (l\<lparr>pos := e\<rparr>)"
  using assms by (auto simp: scan_inv_def list_all_iff)

lemma scan_inv_begin:
  assumes "scan_inv c l" and "pos l \<le> a" and "a \<le> e" and "e \<le> length c"
  shows "scan_inv c (l\<lparr>exclude := True, exclude_pos_start := a, pos := e\<rparr>)"
  using assms by (auto simp: scan_inv_def list_all_iff)

lemma scan_inv_emit:
  assumes "scan_inv c l" and "exclude l" and "pos l \<le> b" and "b \<le> e" and "e \<le> length c"
  shows "scan_inv c (l\<lparr>exclude := False,
                        regions := regions l @ [(exclude_pos_start l, b)], pos := e\<rparr>)"
  using assms
  by (auto simp: scan_inv_def regions_ok_def list_all_iff sorted_wrt_append)

lemma on_define_inv:
  "on_define name e2 s l = (s', l') \<Longrightarrow> scan_inv c l \<Longrightarrow> pos l \<le> e2 \<Longrightarrow> e2 \<le> length c
     \<Longrightarrow> scan_inv c l'"
  by (auto simp: on_define_def scan_inv_pos split: if_splits)

lemma on_undef_inv:
  "on_undef name e2 s l = (s', l') \<Longrightarrow> scan_inv c l \<Longrightarrow> pos l \<le> e2 \<Longrightarrow> e2 \<le> length c
     \<Longrightarrow> scan_inv c l'"
  by (auto simp: on_undef_def scan_inv_pos split: if_splits)

lemma on_ifdef_inv:
  "on_ifdef ms name e2 s l = (s', l') \<Longrightarrow> scan_inv c l \<Longrightarrow> pos l \<le> ms \<Longrightarrow> ms \<le> e2
     \<Longrightarrow> e2 \<le> length c \<Longrightarrow> scan_inv c l'"
  by (auto simp: on_ifdef_def scan_inv_pos scan_inv_begin split: if_splits)

lemma on_ifndef_inv:
  "on_ifndef ms name e2 s l = (s', l') \<Longrightarrow> scan_inv c l \<Longrightarrow> pos l \<le> ms \<Longrightarrow> ms \<le> e2
     \<Longrightarrow> e2 \<le> length c \<Longrightarrow> scan_inv c l'"
  by (auto simp: on_ifndef_def scan_inv_pos scan_inv_begin split: if_splits)

lemma on_else_inv:
  "on_else ms e1 s l = Inr (s', l') \<Longrightarrow> scan_inv c l \<Longrightarrow> pos l \<le> ms \<Longrightarrow> ms \<le> e1
     \<Longrightarrow> e1 \<le> length c \<Longrightarrow> scan_inv c l'"
  by (auto simp: on_else_def scan_inv_pos scan_inv_begin scan_inv_emit split: if_splits)

lemma on_endif_inv:
  "on_endif e1 s l = Inr (s', l') \<Longrightarrow> scan_inv c l \<Longrightarrow> pos l \<le> e1
     \<Longrightarrow> e1 \<le> length c \<Longrightarrow> scan_inv c l'"
  by (auto simp: on_endif_def scan_inv_pos scan_inv_emit split: if_splits)

lemma directive_inv:
  assumes d: "directive E rec c ms me s l = Some (Inr (s', l'))"
    and inv: "scan_inv c l" and ms: "pos l \<le> ms" "ms < me" "me \<le> length c"
  shows "scan_inv c l'"
proof (cases "match_include c ms")
  case (Some v)
  obtain name e2 where v: "v = (name, e2)" by (cases v)
  from Some v match_include_bounds have "ms + 10 < e2 \<and> e2 < length c" by simp
  with ms have "pos l \<le> e2 + 1" "e2 + 1 \<le> length c" by simp_all
  from scan_inv_pos [OF inv this] d Some v show ?thesis
    by (auto simp: directive_def split: option.splits sum.splits)
next
  case inc: None
  show ?thesis
  proof (cases "match_define c ms")
    case (Some v)
    obtain name e2 where v: "v = (name, e2)" by (cases v)
    from Some v match_define_bounds have "ms + 8 < e2 \<and> e2 \<le> length c" by simp
    with ms d directive_define [of c ms name e2] Some v on_define_inv [OF _ inv, of name e2 s s' l']
    show ?thesis by simp
  next
    case def: None
    show ?thesis
    proof (cases "match_undef c ms")
      case (Some v)
      obtain name e2 where v: "v = (name, e2)" by (cases v)
      from Some v match_undef_bounds [of c ms name e2]
      have "ms \<le> e2 \<and> e2 \<le> length c" by simp
      with ms d directive_undef [of c ms name e2] Some v on_undef_inv [OF _ inv, of name e2 s s' l']
      show ?thesis by simp
    next
      case und: None
      show ?thesis
      proof (cases "match_resetall c ms")
        case (Some e1)
        with match_resetall_bounds [of c ms e1] have "ms \<le> e1 \<and> e1 \<le> length c"
          by simp
        with ms d directive_resetall [OF Some] scan_inv_pos [OF inv, of e1]
        show ?thesis by (auto simp: on_resetall_def)
      next
        case res: None
        show ?thesis
        proof (cases "match_ifdef c ms")
          case (Some v)
          obtain name e2 where v: "v = (name, e2)" by (cases v)
          from Some v match_ifdef_bounds [of c ms name e2]
          have "ms \<le> e2 \<and> e2 \<le> length c" by simp
          with ms d directive_ifdef [of c ms name e2] Some v
            on_ifdef_inv [OF _ inv, of ms name e2 s s' l']
          show ?thesis by simp
        next
          case ifd: None
          show ?thesis
          proof (cases "match_else c ms")
            case (Some e1)
            with match_else_bounds [of c ms e1] have "ms \<le> e1 \<and> e1 \<le> length c"
              by simp
            with ms d directive_else [OF Some] on_else_inv [OF _ inv, of ms e1 s s' l']
            show ?thesis by simp
          next
            case els: None
            show ?thesis
            proof (cases "match_endif c ms")
              case (Some e1)
              with match_endif_bounds [of c ms e1] have "ms \<le> e1 \<and> e1 \<le> length c"
                by simp
              with ms d directive_endif [OF Some] on_endif_inv [OF _ inv, of e1 s s' l']
              show ?thesis by simp
            next
              case eif: None
              show ?thesis
              proof (cases "match_ifndef c ms")
                case (Some v)
                obtain name e2 where v: "v = (name, e2)" by (cases v)
                from Some v match_ifndef_bounds [of c ms name e2]
                have "ms \<le> e2 \<and> e2 \<le> length c" by simp
                with ms d directive_ifndef [of c ms name e2] Some v
                  on_ifndef_inv [OF _ inv, of ms name e2 s s' l']
                show ?thesis by simp
              next
                case None
                with inc def und res ifd els eif d have "l' = l\<lparr>pos := me\<rparr>"
                  by (simp add: directive_def)
                with scan_inv_pos [OF inv, of me] ms show ?thesis by simp
              qed
            qed
          qed
        qed
      qed
    qed
  qed
qed

lemma iteration_inv:
  assumes it: "iteration E rec c s l = Some (Inr (s', l'))" and inv: "scan_inv c l"
  shows "scan_inv c l'"
proof (cases "search_marker c (pos l)")
  case None
  with it have "l' = l\<lparr>pos := length c\<rparr>" by (simp add: iteration_def)
  with scan_inv_pos [OF inv, of "length c"] inv show ?thesis by (simp add: scan_inv_def)
next
  case (Some v)
  obtain ms me m where v: "v = (ms, me, m)" by (cases v)
  note b = search_marker_pos [OF Some [unfolded v]]
  have len: "scan_inv c (l\<lparr>pos := length c\<rparr>)"
    using scan_inv_pos [OF inv, of "length c"] b by simp
  show ?thesis
  proof (cases m)
    case Backtick
    with it Some v have "directive E rec c ms me s l = Some (Inr (s', l'))"
      by (simp add: iteration_def)
    from directive_inv [OF this inv] b show ?thesis by simp
  next
    case Quote
    show ?thesis
    proof (cases "search_quote c me")
      case None
      with it Some v Quote len show ?thesis by (auto simp: iteration_def)
    next
      case (Some e)
      with search_quote_bounds [OF Some] b have "pos l \<le> e" "e \<le> length c" by simp_all
      from scan_inv_pos [OF inv this] it \<open>search_marker c (pos l) = Some v\<close> v Quote Some
      show ?thesis by (auto simp: iteration_def)
    qed
  next
    case LineComment
    show ?thesis
    proof (cases "search_newline c me")
      case None
      with it Some v LineComment len show ?thesis by (auto simp: iteration_def)
    next
      case (Some e)
      with search_newline_bounds [OF Some] b have "pos l \<le> e" "e \<le> length c" by simp_all
      from scan_inv_pos [OF inv this] it \<open>search_marker c (pos l) = Some v\<close> v LineComment Some
      show ?thesis by (auto simp: iteration_def)
    qed
  next
    case BlockComment
    show ?thesis
    proof (cases "search_comment_end c me")
      case None
      with it Some v BlockComment len show ?thesis by (auto simp: iteration_def)
    next
      case (Some e)
      with search_comment_end_bounds [OF Some] b have "pos l \<le> e" "e \<le> length c" by simp_all
      from scan_inv_pos [OF inv this] it \<open>search_marker c (pos l) = Some v\<close> v BlockComment Some
      show ?thesis by (auto simp: iteration_def)
    qed
  qed
qed

lemma preproc_loop_regions_ok:
  "preproc_loop n E c s l = Some (Inr (rs, s')) \<Longrightarrow> scan_inv c l \<Longrightarrow> regions_ok c rs"
proof (induction n arbitrary: s l)
  case 0
  then show ?case by simp
next
  case (Suc n)
  show ?case
  proof (cases "pos l < length c")
    case False
    with Suc.prems show ?thesis by (simp add: scan_inv_def)
  next
    case True
    with Suc.prems(1) obtain s1 l1 where
      it: "iteration E (\<lambda>c s'. preproc_loop n E c s' initial_locals) c s l = Some (Inr (s1, l1))"
      and rest: "preproc_loop n E c s1 l1 = Some (Inr (rs, s'))"
      by (auto split: option.splits sum.splits)
    from Suc.IH [OF rest iteration_inv [OF it Suc.prems(2)]] show ?thesis .
  qed
qed

lemma take_prefix: "take n s = k \<Longrightarrow> prefix k s"
  by (metis take_is_prefix)

lemma no_markers_find: "no_markers xs \<Longrightarrow> find_marker xs i = None"
proof (induction xs arbitrary: i)
  case Nil
  then show ?case by simp
next
  case (Cons x xs)
  from Cons.prems have np: "\<not> prefix ''//'' (x # xs)" "\<not> prefix ''/*'' (x # xs)"
    by (auto simp: no_markers_def)
  from Cons.prems have f1: "take 1 (x # xs) \<noteq> [backtick]" and f2: "take 1 (x # xs) \<noteq> [dquote]"
    by (auto simp: no_markers_def)
  from np have f3: "take 2 (x # xs) \<noteq> ''//''" and f4: "take 2 (x # xs) \<noteq> ''/*''"
    using take_prefix by blast+
  have "marker_at (x # xs) = None"
    by (simp only: marker_at_def f1 f2 f3 f4 if_False)
  moreover from Cons.prems have "no_markers xs"
    by (auto simp: no_markers_def sublist_Cons_right)
  ultimately show ?case using Cons.IH by simp
qed

lemma no_markers_run:
  assumes "no_markers c"
  shows "preproc (Suc (Suc n)) E c s = Some (Inr ([], s))"
proof -
  from assms have "search_marker c 0 = None"
    by (simp add: search_marker_def no_markers_find)
  then show ?thesis
    by (simp add: preproc_def iteration_def initial_locals_def)
qed


text \<open>Some runs.\<close>

lemma nested_run:
  "preproc 9 (example_env []) nested (start ''d'') = Some (Inr ([(0, 45)], start ''d''))"
  unfolding nested_def by code_simp

lemma commented_define_run:
  "preproc 9 (example_env []) commented_define (start ''d'') =
     Some (Inr ([(40, 57)], start ''d''))"
  unfolding commented_define_def by code_simp

section \<open>Facts about nested conditionals\<close>





















text \<open>
  For an include, define, undef or resetall directive the pass does not read the
  exclusion cursor: with any cursor \<open>(b, p)\<close> in place of the present one the outcome is
  the same (no return, the same exception, or the same new object and the same next
  \<^verbatim>\<open>pos\<close>), and the cursor is handed on as it was.
\<close>

lemma directive_ignores_cursor:
  assumes m: "search_marker content (pos l) = Some (ms, me, Backtick)"
    and d: "match_include content ms \<noteq> None \<or> match_define content ms \<noteq> None \<or>
            match_undef content ms \<noteq> None \<or> match_resetall content ms \<noteq> None"
  shows "iteration E rec content s (l\<lparr>exclude := b, exclude_pos_start := p\<rparr>) =
     (case iteration E rec content s l of
        None \<Rightarrow> None
      | Some (Inl e) \<Rightarrow> Some (Inl e)
      | Some (Inr (s', l')) \<Rightarrow> Some (Inr (s', l'\<lparr>exclude := b, exclude_pos_start := p\<rparr>)))"
proof -
  let ?l = "l\<lparr>exclude := b, exclude_pos_start := p\<rparr>"
  have m': "search_marker content (pos ?l) = Some (ms, me, Backtick)"
    using m by simp
  show ?thesis
  proof (cases rule: directive_cases [of content ms E rec me s l])
    case (Include name e2)
    then show ?thesis
      by (simp add: iteration_directive [OF m] iteration_directive [OF m']
          directive_include [OF Include(1)] split: option.splits sum.splits)
  next
    case (Define name e2)
    then show ?thesis
      by (simp add: iteration_directive [OF m] iteration_directive [OF m']
          directive_define [OF Define(1)] on_define_def)
  next
    case (Undef name e2)
    then show ?thesis
      by (simp add: iteration_directive [OF m] iteration_directive [OF m']
          directive_undef [OF Undef(1)] on_undef_def)
  next
    case (Resetall e1)
    then show ?thesis
      by (simp add: iteration_directive [OF m] iteration_directive [OF m']
          directive_resetall [OF Resetall(1)] on_resetall_def)
  next
    case (Ifdef name e2)
    from match_spaces_ident_keyword [OF Ifdef(1) [unfolded match_ifdef_def]]
    obtain r where "drop ms content = ''`ifdef'' @ r" ..
    then have "match_include content ms = None" "match_define content ms = None"
      "match_undef content ms = None" "match_resetall content ms = None"
      by (simp_all add: match_include_def match_define_def match_undef_def match_resetall_def
          match_word_def match_spaces_ident_def keyword_simps)
    with d show ?thesis by simp
  next
    case (Else e1)
    from match_word_keyword [OF Else(1) [unfolded match_else_def]]
    obtain r where "drop ms content = ''`else'' @ r" ..
    then have "match_include content ms = None" "match_define content ms = None"
      "match_undef content ms = None" "match_resetall content ms = None"
      by (simp_all add: match_include_def match_define_def match_undef_def match_resetall_def
          match_word_def match_spaces_ident_def keyword_simps)
    with d show ?thesis by simp
  next
    case (Endif e1)
    from match_word_keyword [OF Endif(1) [unfolded match_endif_def]]
    obtain r where "drop ms content = ''`endif'' @ r" ..
    then have "match_include content ms = None" "match_define content ms = None"
      "match_undef content ms = None" "match_resetall content ms = None"
      by (simp_all add: match_include_def match_define_def match_undef_def match_resetall_def
          match_word_def match_spaces_ident_def keyword_simps)
    with d show ?thesis by simp
  next
    case (Ifndef name e2)
    from match_spaces_ident_keyword [OF Ifndef(1) [unfolded match_ifndef_def]]
    obtain r where "drop ms content = ''`ifndef'' @ r" ..
    then have "match_include content ms = None" "match_define content ms = None"
      "match_undef content ms = None" "match_resetall content ms = None"
      by (simp_all add: match_include_def match_define_def match_undef_def match_resetall_def
          match_word_def match_spaces_ident_def keyword_simps)
    with d show ?thesis by simp
  next
    case Other
    with d show ?thesis by simp
  qed
qed

text \<open>
  The pattern of line 236 asks for one character behind the keyword (lemma
  \<open>match_word_bounds\<close>), so an \<^verbatim>\<open>`endif\<close> that ends the buffer is not a match: the
  block it would close gives no region and its frame stays on the stack.
\<close>

lemma endif_at_end_of_buffer_run:
  "preproc 5 (example_env []) endif_at_end (start ''d'') = Some (Inr ([], outer_only))"
  unfolding endif_at_end_def outer_only_def by code_simp

section \<open>The claims\<close>

subsection \<open>C1: termination, repeated define, undef of an absent name\<close>

text \<open>
  Claim C1 says that the run completes for every buffer, and in particular that a
  \<^verbatim>\<open>`define NAME\<close> whose name is already defined, and an \<^verbatim>\<open>`undef NAME\<close> whose
  name is not defined, are passed over. In the source, lines 188 and 196 assign
  \<^verbatim>\<open>pos\<close> inside the \<^verbatim>\<open>if\<close> that tests the name (lines 216 and 257 of the sibling
  directives stand outside it), so in these two cases the pass leaves \<^verbatim>\<open>pos\<close> and every
  other variable as they were and the loop repeats it for ever (lemma
  \<open>stuck_directive\<close>). The theorem runs the two smallest such buffers: whatever the fuel,
  \<^verbatim>\<open>preproc\<close> does not return.
\<close>

theorem repeated_define_never_returns:
  "preproc n E define_twice (start d) = None \<and> preproc n E undef_absent (start d) = None"
proof
  let ?s = "(start d)\<lparr>defines := [''A'']\<rparr>" and ?l = "initial_locals\<lparr>pos := 9\<rparr>"
  have stuck: "preproc_loop m E define_twice ?s ?l = None" for m
    by (rule stuck_directive [of _ _ 10 11 "''A''" 19])
      (simp_all add: define_twice_def eval_defs)
  show "preproc n E define_twice (start d) = None"
  proof (cases n)
    case 0
    then show ?thesis by (simp add: preproc_def)
  next
    case (Suc m)
    have "preproc (Suc m) E define_twice (start d) = preproc_loop m E define_twice ?s ?l"
      by (simp add: define_twice_def eval_defs)
    with Suc stuck show ?thesis by simp
  qed
  show "preproc n E undef_absent (start d) = None"
    unfolding preproc_def
    by (rule stuck_directive [of _ _ 0 1 "''A''" 8])
      (simp_all add: undef_absent_def eval_defs)
qed

subsection \<open>C2: else and endif with no open conditional\<close>

text \<open>
  Claim C2 says that an \<^verbatim>\<open>`else\<close> or \<^verbatim>\<open>`endif\<close> met while
  \<^verbatim>\<open>self.conditionals\<close> is empty is ignored without an error. The source reads
  \<^verbatim>\<open>self.conditionals[-1]\<close> (lines 223 and 227) and deletes it (line 243) with no test
  for the empty list, so the run ends with \<^verbatim>\<open>IndexError\<close> (lemma
  \<open>else_endif_raise\<close> for any buffer and state). The theorem runs the two smallest such
  buffers from the state in which a run starts.
\<close>

theorem else_endif_without_conditional_raise:
  "preproc (Suc n) E (''`else'' @ [newline]) (start d) = Some (Inl IndexError) \<and>
   preproc (Suc n) E (''`endif'' @ [newline]) (start d) = Some (Inl IndexError)"
  by (simp add: eval_defs)

subsection \<open>C3: an include that cannot be resolved\<close>

text \<open>
  Claim C3 says that an include whose file is not found or cannot be read prints a
  diagnostic, leaves the defines and the conditionals alone, and that the scan goes on
  behind the closing quote. The source prints only in \<^verbatim>\<open>except OSError\<close>: when no
  candidate file exists, nothing is printed. The counterexample is a run with one include
  line and no file at all: it returns with nothing printed.
\<close>

theorem missing_include_prints_nothing:
  "preproc 3 (example_env []) include_line (start ''d'') =
   Some (Inr ([], \<lparr>defines = [], conditionals = [], head = [''d''], printed = []\<rparr>))"
  unfolding include_line_def by code_simp

text \<open>
  Claim C3 as amended: for an include directive, the offset \<open>e2\<close> is that of the closing
  quote; when no candidate file exists, the loop goes on at \<open>e2 + 1\<close> with the object
  unchanged, nothing printed; when the first existing candidate raises \<^verbatim>\<open>OSError\<close> on
  \<^verbatim>\<open>open\<close> or \<^verbatim>\<open>read\<close>, the loop goes on at \<open>e2 + 1\<close> with the same defines and
  conditionals and one more line printed.
\<close>

theorem unresolved_include_is_skipped:
  assumes m: "search_marker content (pos l) = Some (ms, me, Backtick)"
    and i: "match_include content ms = Some (name, e2)"
    and h: "head s \<noteq> []"
  shows "content ! e2 = dquote \<and>
    (find (isfile E) (candidates E s name) = None \<longrightarrow>
       preproc_loop (Suc n) E content s l = preproc_loop n E content s (l\<lparr>pos := e2 + 1\<rparr>)) \<and>
    (\<forall>file_name. find (isfile E) (candidates E s name) = Some file_name \<and>
       (open_read E file_name = Open_OSError \<or> open_read E file_name = Read_OSError) \<longrightarrow>
       (\<exists>s'. defines s' = defines s \<and> conditionals s' = conditionals s \<and>
             printed s' = printed s @ [Cant_open file_name] \<and>
             preproc_loop (Suc n) E content s l =
               preproc_loop n E content s' (l\<lparr>pos := e2 + 1\<rparr>)))"
proof (intro conjI allI impI)
  show "content ! e2 = dquote"
    using match_include_text [OF i] by simp
next
  assume "find (isfile E) (candidates E s name) = None"
  with h search_marker_pos [OF m]
  show "preproc_loop (Suc n) E content s l = preproc_loop n E content s (l\<lparr>pos := e2 + 1\<rparr>)"
    by (simp add: iteration_directive [OF m] directive_include [OF i] include_file_find)
next
  fix file_name
  assume a: "find (isfile E) (candidates E s name) = Some file_name \<and>
    (open_read E file_name = Open_OSError \<or> open_read E file_name = Read_OSError)"
  let ?s' = "if open_read E file_name = Open_OSError
    then s\<lparr>printed := printed s @ [Cant_open file_name]\<rparr>
    else s\<lparr>head := head s @ [split_head E file_name],
           printed := printed s @ [Cant_open file_name]\<rparr>"
  from a h search_marker_pos [OF m]
  have "preproc_loop (Suc n) E content s l = preproc_loop n E content ?s' (l\<lparr>pos := e2 + 1\<rparr>)"
    by (auto simp: iteration_directive [OF m] directive_include [OF i] include_file_find
        read_and_scan_def)
  moreover have "defines ?s' = defines s" "conditionals ?s' = conditionals s"
    "printed ?s' = printed s @ [Cant_open file_name]"
    by simp_all
  ultimately show "\<exists>s'. defines s' = defines s \<and> conditionals s' = conditionals s \<and>
             printed s' = printed s @ [Cant_open file_name] \<and>
             preproc_loop (Suc n) E content s l =
               preproc_loop n E content s' (l\<lparr>pos := e2 + 1\<rparr>)"
    by blast
qed

theorem unresolved_include_is_skipped_witness:
  "search_marker include_line (pos initial_locals) = Some (0, 1, Backtick) \<and>
   match_include include_line 0 = Some (''f.vh'', 14) \<and>
   head (start ''d'') \<noteq> [] \<and>
   include_line ! 14 = dquote \<and>
   find (isfile (example_env [])) (candidates (example_env []) (start ''d'') ''f.vh'') = None \<and>
   preproc_loop (Suc 2) (example_env []) include_line (start ''d'') initial_locals =
     preproc_loop 2 (example_env []) include_line (start ''d'') (initial_locals\<lparr>pos := 14 + 1\<rparr>) \<and>
   find (isfile unreadable_env) (candidates unreadable_env (start ''d'') ''f.vh'') =
     Some ''lib/f.vh'' \<and>
   open_read unreadable_env ''lib/f.vh'' = Open_OSError \<and>
   (\<exists>s'. defines s' = defines (start ''d'') \<and> conditionals s' = conditionals (start ''d'') \<and>
         printed s' = printed (start ''d'') @ [Cant_open ''lib/f.vh''] \<and>
         preproc_loop (Suc 2) unreadable_env include_line (start ''d'') initial_locals =
           preproc_loop 2 unreadable_env include_line s' (initial_locals\<lparr>pos := 14 + 1\<rparr>))"
proof -
  have h: "search_marker include_line (pos initial_locals) = Some (0, 1, Backtick)"
    "match_include include_line 0 = Some (''f.vh'', 14)"
    "head (start ''d'') \<noteq> []"
    by (simp_all add: eval_defs)
  have a: "find (isfile (example_env [])) (candidates (example_env []) (start ''d'') ''f.vh'')
      = None"
    by (simp add: eval_defs)
  have b: "find (isfile unreadable_env) (candidates unreadable_env (start ''d'') ''f.vh'') =
      Some ''lib/f.vh''"
    "open_read unreadable_env ''lib/f.vh'' = Open_OSError"
    by (simp_all add: unreadable_env_def eval_defs)
  note t = unresolved_include_is_skipped [OF h]
  from t [where E = "example_env []" and n = 2] a
  have c: "include_line ! 14 = dquote"
    "preproc_loop (Suc 2) (example_env []) include_line (start ''d'') initial_locals =
     preproc_loop 2 (example_env []) include_line (start ''d'') (initial_locals\<lparr>pos := 14 + 1\<rparr>)"
    by blast+
  from t [where E = unreadable_env and n = 2] b
  have "\<exists>s'. defines s' = defines (start ''d'') \<and> conditionals s' = conditionals (start ''d'') \<and>
         printed s' = printed (start ''d'') @ [Cant_open ''lib/f.vh''] \<and>
         preproc_loop (Suc 2) unreadable_env include_line (start ''d'') initial_locals =
           preproc_loop 2 unreadable_env include_line s' (initial_locals\<lparr>pos := 14 + 1\<rparr>)"
    by blast
  with h a b c show ?thesis by blast
qed

subsection \<open>C4: an include shares the state and drops the regions\<close>

text \<open>
  Claim C4: when the file of an include directive is found and read, the nested scan
  starts from the includer's own object (its defines and conditionals, with the file's
  directory pushed), and the includer goes on behind the closing quote with the object
  the nested scan left, the directory popped, and with its own exclusion cursor and region
  list as they were: the regions \<open>rs\<close> of the nested scan appear nowhere.
\<close>

theorem include_shares_state_drops_regions:
  assumes m: "search_marker content (pos l) = Some (ms, me, Backtick)"
    and i: "match_include content ms = Some (name, e2)"
    and h: "head s \<noteq> []"
    and f: "find (isfile E) (candidates E s name) = Some file_name"
    and t: "open_read E file_name = Text include_content"
    and r: "preproc n E include_content (s\<lparr>head := head s @ [split_head E file_name]\<rparr>)
              = Some (Inr (rs, s'))"
  shows "preproc_loop (Suc n) E content s l =
           preproc_loop n E content (s'\<lparr>head := butlast (head s')\<rparr>) (l\<lparr>pos := e2 + 1\<rparr>)"
proof -
  from head_grows [OF r [unfolded preproc_def]] have "head s' \<noteq> []" by auto
  with r [unfolded preproc_def] t f h search_marker_pos [OF m] show ?thesis
    by (simp add: iteration_directive [OF m] directive_include [OF i]
        include_file_find read_and_scan_def)
qed

text \<open>
  The header defines \<open>X\<close> and has an excluded block of its own, the region \<open>(0, 17)\<close>;
  the includer's \<^verbatim>\<open>`ifdef X\<close> is then taken and its region list is empty.
\<close>

theorem include_shares_state_drops_regions_witness:
  "search_marker include_then_ifdef (pos initial_locals) = Some (0, 1, Backtick) \<and>
   match_include include_then_ifdef 0 = Some (''f.vh'', 14) \<and>
   head (start ''d'') \<noteq> [] \<and>
   find (isfile header_env) (candidates header_env (start ''d'') ''f.vh'') = Some ''lib/f.vh'' \<and>
   open_read header_env ''lib/f.vh'' = Text header_text \<and>
   preproc 5 header_env header_text
     ((start ''d'')\<lparr>head := head (start ''d'') @ [split_head header_env ''lib/f.vh'']\<rparr>) =
     Some (Inr ([(0, 17)], after_header)) \<and>
   preproc 6 header_env include_then_ifdef (start ''d'') =
     Some (Inr ([], \<lparr>defines = [''X''], conditionals = [], head = [''d''], printed = []\<rparr>))"
proof -
  have h: "search_marker include_then_ifdef (pos initial_locals) = Some (0, 1, Backtick)"
    "match_include include_then_ifdef 0 = Some (''f.vh'', 14)"
    "head (start ''d'') \<noteq> []"
    "find (isfile header_env) (candidates header_env (start ''d'') ''f.vh'') = Some ''lib/f.vh''"
    "open_read header_env ''lib/f.vh'' = Text header_text"
    by (simp_all add: include_then_ifdef_def header_env_def eval_defs)
  have r: "preproc 5 header_env header_text
     ((start ''d'')\<lparr>head := head (start ''d'') @ [split_head header_env ''lib/f.vh'']\<rparr>) =
     Some (Inr ([(0, 17)], after_header))"
    unfolding header_env_def header_text_def after_header_def by code_simp
  have rest: "preproc_loop 5 header_env include_then_ifdef
      (after_header\<lparr>head := butlast (head after_header)\<rparr>) (initial_locals\<lparr>pos := 14 + 1\<rparr>) =
     Some (Inr ([], \<lparr>defines = [''X''], conditionals = [], head = [''d''], printed = []\<rparr>))"
    unfolding header_env_def header_text_def after_header_def include_then_ifdef_def
      include_line_def
    by code_simp
  have "preproc 6 header_env include_then_ifdef (start ''d'') =
      preproc_loop (Suc 5) header_env include_then_ifdef (start ''d'') initial_locals"
    by (simp add: preproc_def)
  also note include_shares_state_drops_regions [OF h r]
  also note rest
  finally show ?thesis using h r by blast
qed

subsection \<open>C5: a conditional inside an excluded conditional\<close>




subsection \<open>C6: comments and strings\<close>

text \<open>
  Claim C6 says that a directive inside a comment or a string literal never changes the
  defines or the conditionals. A pass that meets a comment or a string does skip to the
  end that the scanner finds (lemmas \<open>comment_or_string_is_skipped\<close> and
  \<open>commented_define_run\<close>), but for a string that end is wrong when the string ends
  in an escaped backslash (the defect of claim C7): the scanner then takes the opening
  quote of the next string for the closing one and reads that string's text as code. The
  theorem runs two strings, the second holding a define directive: the first string is
  ended at offset 6, behind the second string's opening quote, and the run returns with
  the macro defined.
\<close>

theorem directive_in_string_after_backslash_runs:
  "search_quote two_strings 1 = Some 6 \<and>
   preproc (Suc (Suc (Suc (Suc n)))) E two_strings (start d) =
     Some (Inr ([], (start d)\<lparr>defines := [''A''], printed := [String_not_ended]\<rparr>))"
  by (simp add: two_strings_def eval_defs)

subsection \<open>C7: the end of a string\<close>

text \<open>
  Claim C7 says that a double quote behind an even number of backslashes ends the string.
  The pattern of line 140 looks one character back: a quote directly behind a backslash
  never ends the string (lemma \<open>closing_quote_not_after_backslash\<close>), also when that
  backslash is itself escaped. The theorem runs a buffer that starts with the string of one
  escaped backslash: its closing quote is not found, the string is reported as not ended
  and the rest of the buffer, a conditional on an undefined macro, is never scanned.
\<close>

theorem string_ending_in_backslash_not_closed:
  "search_quote escaped_backslash 1 = None \<and>
   preproc (Suc (Suc n)) E escaped_backslash (start d) =
     Some (Inr ([], (start d)\<lparr>printed := [String_not_ended]\<rparr>))"
  by (simp add: escaped_backslash_def eval_defs)

subsection \<open>C8: the shape of the region list\<close>

text \<open>
  Claim C8: whenever \<^verbatim>\<open>preproc\<close> returns, from any state of the object, its regions
  are half-open intervals inside the buffer, each ending before the next begins; and on a
  buffer with no backtick, no double quote, no \<^verbatim>\<open>//\<close> and no \<^verbatim>\<open>/*\<close> it returns
  the empty list, with the object unchanged.
\<close>

theorem regions_ascending_disjoint:
  "(preproc n E content s = Some (Inr (rs, s')) \<longrightarrow> regions_ok content rs) \<and>
   (no_markers content \<longrightarrow> preproc (Suc (Suc n)) E content s = Some (Inr ([], s)))"
  using preproc_loop_regions_ok [OF _ scan_inv_initial, of n E content s rs s']
    no_markers_run [of content n E s]
  by (simp add: preproc_def)

theorem regions_ascending_disjoint_witness:
  "preproc 7 (example_env []) two_blocks (start ''d'') =
     Some (Inr ([(0, 17), (18, 35)], start ''d'')) \<and>
   regions_ok two_blocks [(0, 17), (18, 35)] \<and>
   no_markers plain_text \<and>
   preproc (Suc (Suc 0)) (example_env []) plain_text (start ''d'') = Some (Inr ([], start ''d''))"
proof -
  have r: "preproc 7 (example_env []) two_blocks (start ''d'') =
     Some (Inr ([(0, 17), (18, 35)], start ''d''))"
    unfolding two_blocks_def by code_simp
  have p: "no_markers plain_text"
    by (simp add: no_markers_def plain_text_def sublist_Cons_right)
  from regions_ascending_disjoint [of 7 "example_env []" two_blocks "start ''d''"
      "[(0, 17), (18, 35)]" "start ''d''"] r
  have "regions_ok two_blocks [(0, 17), (18, 35)]" by blast
  moreover from regions_ascending_disjoint [of 0 "example_env []" plain_text "start ''d''"] p
  have "preproc (Suc (Suc 0)) (example_env []) plain_text (start ''d'') =
      Some (Inr ([], start ''d''))"
    by blast
  ultimately show ?thesis using r p by blast
qed

subsection \<open>C9: the directory stack after an include\<close>

text \<open>
  Claim C9 says that the directory pushed for an included file is popped on every exit
  path. Lines 160--163 push after \<^verbatim>\<open>open\<close> and pop after the recursive call, inside
  the \<^verbatim>\<open>try\<close>: when \<^verbatim>\<open>file.read()\<close> raises \<^verbatim>\<open>OSError\<close> the handler prints
  and the pop is skipped (lemma \<open>read_error_keeps_directory\<close>). The theorem runs one
  include line on a file of the search directory whose read fails: the run returns with
  that directory still on \<^verbatim>\<open>self.head\<close>.
\<close>

theorem read_error_keeps_directory_pushed:
  "preproc (Suc (Suc (Suc n))) (example_env [(''lib/f.vh'', Read_OSError)]) include_line
      (start ''d'') =
   Some (Inr ([], \<lparr>defines = [], conditionals = [], head = [''d'', ''lib''],
                   printed = [Cant_open ''lib/f.vh'']\<rparr>))"
  by (simp add: eval_defs)

subsection \<open>C10: directives inside an excluded region\<close>

text \<open>
  Claim C10: while the cursor is excluding, a define of a new name appends it to
  \<^verbatim>\<open>self.defines\<close>, an undef of a defined name removes it, a resetall empties the
  list, and an include whose file is found and read is scanned by the recursive call, whose
  object the loop goes on with once the directory is popped. In each case only
  \<^verbatim>\<open>pos\<close> changes among the local variables, so the exclusion goes on and no region is
  added. For all four directives the pass is the pass of the same directive with the
  cursor not excluding: the same outcome, the same new object, the same next \<^verbatim>\<open>pos\<close>.
\<close>

theorem excluded_directives_take_effect:
  assumes m: "search_marker content (pos l) = Some (ms, me, Backtick)"
    and x: "exclude l"
  shows "(match_define content ms = Some (name, e) \<and> name \<notin> set (defines s) \<longrightarrow>
            iteration E rec content s l =
              Some (Inr (s\<lparr>defines := defines s @ [name]\<rparr>, l\<lparr>pos := e\<rparr>))) \<and>
         (match_undef content ms = Some (name, e) \<and> name \<in> set (defines s) \<longrightarrow>
            iteration E rec content s l =
              Some (Inr (s\<lparr>defines := remove1 name (defines s)\<rparr>, l\<lparr>pos := e\<rparr>))) \<and>
         (match_resetall content ms = Some e \<longrightarrow>
            iteration E rec content s l = Some (Inr (s\<lparr>defines := []\<rparr>, l\<lparr>pos := e\<rparr>))) \<and>
         (match_include content ms = Some (name, e) \<and> head s \<noteq> [] \<and>
          find (isfile E) (candidates E s name) = Some file_name \<and>
          open_read E file_name = Text include_content \<and>
          rec include_content (s\<lparr>head := head s @ [split_head E file_name]\<rparr>) =
            Some (Inr (rs, s')) \<and> head s' \<noteq> [] \<longrightarrow>
            iteration E rec content s l =
              Some (Inr (s'\<lparr>head := butlast (head s')\<rparr>, l\<lparr>pos := e + 1\<rparr>))) \<and>
         (match_include content ms \<noteq> None \<or> match_define content ms \<noteq> None \<or>
          match_undef content ms \<noteq> None \<or> match_resetall content ms \<noteq> None \<longrightarrow>
            iteration E rec content s l =
              (case iteration E rec content s (l\<lparr>exclude := False\<rparr>) of
                 None \<Rightarrow> None
               | Some (Inl ex) \<Rightarrow> Some (Inl ex)
               | Some (Inr (s'', l'')) \<Rightarrow>
                   Some (Inr (s'', l''\<lparr>exclude := True,
                                        exclude_pos_start := exclude_pos_start l\<rparr>))))"
proof -
  note it = iteration_directive [OF m]
  have def: "iteration E rec content s l =
      Some (Inr (s\<lparr>defines := defines s @ [name]\<rparr>, l\<lparr>pos := e\<rparr>))"
    if "match_define content ms = Some (name, e)" "name \<notin> set (defines s)"
    using that by (simp add: it directive_define on_define_def)
  have und: "iteration E rec content s l =
      Some (Inr (s\<lparr>defines := remove1 name (defines s)\<rparr>, l\<lparr>pos := e\<rparr>))"
    if "match_undef content ms = Some (name, e)" "name \<in> set (defines s)"
    using that by (simp add: it directive_undef on_undef_def)
  have res: "iteration E rec content s l = Some (Inr (s\<lparr>defines := []\<rparr>, l\<lparr>pos := e\<rparr>))"
    if "match_resetall content ms = Some e"
    using that by (simp add: it directive_resetall on_resetall_def)
  have inc: "iteration E rec content s l =
      Some (Inr (s'\<lparr>head := butlast (head s')\<rparr>, l\<lparr>pos := e + 1\<rparr>))"
    if "match_include content ms = Some (name, e)" "head s \<noteq> []"
      "find (isfile E) (candidates E s name) = Some file_name"
      "open_read E file_name = Text include_content"
      "rec include_content (s\<lparr>head := head s @ [split_head E file_name]\<rparr>) =
         Some (Inr (rs, s'))" "head s' \<noteq> []"
    using that by (simp add: it directive_include include_file_find read_and_scan_def)
  have same: "iteration E rec content s l =
      (case iteration E rec content s (l\<lparr>exclude := False\<rparr>) of
         None \<Rightarrow> None
       | Some (Inl ex) \<Rightarrow> Some (Inl ex)
       | Some (Inr (s'', l'')) \<Rightarrow>
           Some (Inr (s'', l''\<lparr>exclude := True, exclude_pos_start := exclude_pos_start l\<rparr>)))"
    if d: "match_include content ms \<noteq> None \<or> match_define content ms \<noteq> None \<or>
          match_undef content ms \<noteq> None \<or> match_resetall content ms \<noteq> None"
  proof -
    from m have m': "search_marker content (pos (l\<lparr>exclude := False\<rparr>)) = Some (ms, me, Backtick)"
      by simp
    from x have "l = (l\<lparr>exclude := False\<rparr>)\<lparr>exclude := True,
        exclude_pos_start := exclude_pos_start l\<rparr>"
      by simp
    then have "iteration E rec content s l =
        iteration E rec content s ((l\<lparr>exclude := False\<rparr>)\<lparr>exclude := True,
          exclude_pos_start := exclude_pos_start l\<rparr>)"
      by simp
    also note directive_ignores_cursor [OF m' d]
    finally show ?thesis .
  qed
  from def und res inc same show ?thesis by blast
qed

text \<open>
  The four directives of the excluded block of \<open>directives_in_excluded\<close>, each with an
  object on which it has an effect; the include reads the header \<^verbatim>\<open>lib/f.vh\<close>, which
  defines \<open>X\<close>, and the block that tests \<open>X\<close> behind the excluded block is kept.
\<close>

theorem excluded_directives_take_effect_witness:
  "search_marker directives_in_excluded (pos (excluding_from_0 8)) = Some (9, 10, Backtick) \<and>
   exclude (excluding_from_0 8) \<and>
   match_define directives_in_excluded 9 = Some (''B'', 18) \<and>
   ''B'' \<notin> set (defines outer_only) \<and>
   iteration header_env (preproc 5 header_env) directives_in_excluded outer_only
       (excluding_from_0 8) =
     Some (Inr (outer_only\<lparr>defines := [''B'']\<rparr>, excluding_from_0 18)) \<and>
   search_marker directives_in_excluded (pos (excluding_from_0 18)) = Some (19, 20, Backtick) \<and>
   match_undef directives_in_excluded 19 = Some (''B'', 27) \<and>
   ''B'' \<in> set (defines (outer_only\<lparr>defines := [''C'', ''B'']\<rparr>)) \<and>
   iteration header_env (preproc 5 header_env) directives_in_excluded
       (outer_only\<lparr>defines := [''C'', ''B'']\<rparr>) (excluding_from_0 18) =
     Some (Inr (outer_only\<lparr>defines := [''C'']\<rparr>, excluding_from_0 27)) \<and>
   search_marker directives_in_excluded (pos (excluding_from_0 27)) = Some (28, 29, Backtick) \<and>
   match_resetall directives_in_excluded 28 = Some 37 \<and>
   iteration header_env (preproc 5 header_env) directives_in_excluded
       (outer_only\<lparr>defines := [''C'', ''B'']\<rparr>) (excluding_from_0 27) =
     Some (Inr (outer_only, excluding_from_0 37)) \<and>
   search_marker directives_in_excluded (pos (excluding_from_0 37)) = Some (38, 39, Backtick) \<and>
   match_include directives_in_excluded 38 = Some (''f.vh'', 52) \<and>
   head outer_only \<noteq> [] \<and>
   find (isfile header_env) (candidates header_env outer_only ''f.vh'') = Some ''lib/f.vh'' \<and>
   open_read header_env ''lib/f.vh'' = Text header_text \<and>
   preproc 5 header_env header_text
       (outer_only\<lparr>head := head outer_only @ [split_head header_env ''lib/f.vh'']\<rparr>) =
     Some (Inr ([(0, 17)], outer_only\<lparr>defines := [''X''], head := [''d'', ''lib'']\<rparr>)) \<and>
   iteration header_env (preproc 5 header_env) directives_in_excluded outer_only
       (excluding_from_0 37) =
     Some (Inr (outer_only\<lparr>defines := [''X'']\<rparr>, excluding_from_0 53)) \<and>
   iteration header_env (preproc 5 header_env) directives_in_excluded outer_only
       ((excluding_from_0 37)\<lparr>exclude := False\<rparr>) =
     Some (Inr (outer_only\<lparr>defines := [''X'']\<rparr>, (excluding_from_0 53)\<lparr>exclude := False\<rparr>)) \<and>
   preproc 12 header_env directives_in_excluded (start ''d'') =
     Some (Inr ([(0, 60)], (start ''d'')\<lparr>defines := [''X'']\<rparr>))"
proof -
  let ?E = header_env and ?rec = "preproc 5 header_env" and ?c = directives_in_excluded
  have m1: "search_marker ?c (pos (excluding_from_0 8)) = Some (9, 10, Backtick)"
    and m2: "search_marker ?c (pos (excluding_from_0 18)) = Some (19, 20, Backtick)"
    and m3: "search_marker ?c (pos (excluding_from_0 27)) = Some (28, 29, Backtick)"
    and m4: "search_marker ?c (pos (excluding_from_0 37)) = Some (38, 39, Backtick)"
    by (simp_all add: directives_in_excluded_def excluding_from_0_def eval_defs)
  have x: "exclude (excluding_from_0 p)" for p
    by (simp add: excluding_from_0_def)
  have p: "(excluding_from_0 q)\<lparr>pos := p\<rparr> = excluding_from_0 p" for p q
    by (simp add: excluding_from_0_def)
  have d1: "match_define ?c 9 = Some (''B'', 18)" "''B'' \<notin> set (defines outer_only)"
    by (simp_all add: directives_in_excluded_def outer_only_def eval_defs)
  have d2: "match_undef ?c 19 = Some (''B'', 27)"
    "''B'' \<in> set (defines (outer_only\<lparr>defines := [''C'', ''B'']\<rparr>))"
    by (simp_all add: directives_in_excluded_def outer_only_def eval_defs)
  have d3: "match_resetall ?c 28 = Some 37"
    by (simp add: directives_in_excluded_def eval_defs)
  have d4: "match_include ?c 38 = Some (''f.vh'', 52)" "head outer_only \<noteq> []"
    "find (isfile ?E) (candidates ?E outer_only ''f.vh'') = Some ''lib/f.vh''"
    "open_read ?E ''lib/f.vh'' = Text header_text"
    by (simp_all add: directives_in_excluded_def outer_only_def header_env_def eval_defs)
  have r: "preproc 5 ?E header_text
       (outer_only\<lparr>head := head outer_only @ [split_head ?E ''lib/f.vh'']\<rparr>) =
     Some (Inr ([(0, 17)], outer_only\<lparr>defines := [''X''], head := [''d'', ''lib'']\<rparr>))"
    unfolding header_env_def header_text_def outer_only_def by code_simp
  have h: "head (outer_only\<lparr>defines := [''X''], head := [''d'', ''lib'']\<rparr>) \<noteq> []"
    by simp
  note t = excluded_directives_take_effect [where E = "?E" and rec = "?rec" and content = "?c"]
  from t [OF m1 x, where s = outer_only and name = "''B''" and e = 18] d1
  have a1: "iteration ?E ?rec ?c outer_only (excluding_from_0 8) =
     Some (Inr (outer_only\<lparr>defines := [''B'']\<rparr>, excluding_from_0 18))"
    by (simp add: p outer_only_def)
  from t [OF m2 x, where s = "outer_only\<lparr>defines := [''C'', ''B'']\<rparr>" and name = "''B''"
      and e = 27] d2
  have a2: "iteration ?E ?rec ?c (outer_only\<lparr>defines := [''C'', ''B'']\<rparr>) (excluding_from_0 18) =
     Some (Inr (outer_only\<lparr>defines := [''C'']\<rparr>, excluding_from_0 27))"
    by (simp add: p)
  from t [OF m3 x, where s = "outer_only\<lparr>defines := [''C'', ''B'']\<rparr>" and e = 37] d3
  have a3: "iteration ?E ?rec ?c (outer_only\<lparr>defines := [''C'', ''B'']\<rparr>) (excluding_from_0 27) =
     Some (Inr (outer_only, excluding_from_0 37))"
    by (simp add: p outer_only_def)
  from t [OF m4 x, where s = outer_only and name = "''f.vh''" and e = 52
      and file_name = "''lib/f.vh''" and include_content = header_text and rs = "[(0, 17)]"
      and s' = "outer_only\<lparr>defines := [''X''], head := [''d'', ''lib'']\<rparr>"] d4 r h
  have a4: "iteration ?E ?rec ?c outer_only (excluding_from_0 37) =
     Some (Inr (outer_only\<lparr>defines := [''X'']\<rparr>, excluding_from_0 53))"
    by (simp add: p outer_only_def)
  have a5: "iteration ?E ?rec ?c outer_only ((excluding_from_0 37)\<lparr>exclude := False\<rparr>) =
     Some (Inr (outer_only\<lparr>defines := [''X'']\<rparr>, (excluding_from_0 53)\<lparr>exclude := False\<rparr>))"
    unfolding header_env_def header_text_def outer_only_def directives_in_excluded_def
      excluding_from_0_def include_line_def
    by code_simp
  have w: "preproc 12 ?E ?c (start ''d'') =
     Some (Inr ([(0, 60)], (start ''d'')\<lparr>defines := [''X'']\<rparr>))"
    unfolding header_env_def header_text_def directives_in_excluded_def include_line_def
    by code_simp
  from m1 x [of 8] d1 a1 m2 d2 a2 m3 d3 a3 m4 d4 r a4 a5 w show ?thesis by blast
qed

end
